theory Spec2Isabelle
  imports Main "HOL-Library.Word"
begin

unbundle bit_operations_syntax

section \<open>Status codec of the buddy allocator (src/buddy.c)\<close>

text \<open>
  The tree is the C array \<^verbatim>\<open>uint8_t tree[]\<close>: a list of bytes. Node statuses are the
  C constants \<^verbatim>\<open>NODE_UNUSED 0\<close>, \<^verbatim>\<open>NODE_USED 1\<close>, \<^verbatim>\<open>NODE_SPLIT 2\<close>, \<^verbatim>\<open>NODE_FULL 3\<close>;
  indices and statuses are C \<^verbatim>\<open>int\<close>s, modelled as \<^typ>\<open>int\<close>.
\<close>

type_synonym u8 = "8 word"
type_synonym u32 = "32 word"

definition NODE_UNUSED :: int where "NODE_UNUSED = 0"
definition NODE_USED :: int where "NODE_USED = 1"
definition NODE_SPLIT :: int where "NODE_SPLIT = 2"
definition NODE_FULL :: int where "NODE_FULL = 3"

text \<open>\<^verbatim>\<open>index >> 2\<close> and \<^verbatim>\<open>(index & 3) * 2\<close> for a non-negative index.\<close>

definition byte_of :: "int \<Rightarrow> nat" where
  "byte_of index = nat (drop_bit 2 index)"

definition shift_of :: "int \<Rightarrow> nat" where
  "shift_of index = nat (index AND 3) * 2"

text \<open>An index is in range when it is not negative and its byte lies in the array.\<close>

definition in_tree :: "u8 list \<Rightarrow> int \<Rightarrow> bool" where
  "in_tree t index \<longleftrightarrow> 0 \<le> index \<and> byte_of index < length t"

text \<open>\<^verbatim>\<open>return (self->tree[index >> 2] >> ((index & 3) * 2)) & 3;\<close>\<close>

definition get_index_status :: "u8 list \<Rightarrow> int \<Rightarrow> int" where
  "get_index_status t index = uint (drop_bit (shift_of index) (t ! byte_of index) AND 3)"

text \<open>
  \<^verbatim>\<open>uint8_t old = self->tree[index >> 2] & ~(3 << ((index & 3) * 2));\<close>
  \<^verbatim>\<open>self->tree[index >> 2] = old | (status << ((index & 3) * 2));\<close>
  The right-hand sides are computed on \<^verbatim>\<open>int\<close> and truncated to 8 bits by the
  assignment; truncation commutes with the bitwise operations and the left shift.
\<close>

definition set_index_status :: "u8 list \<Rightarrow> int \<Rightarrow> int \<Rightarrow> u8 list" where
  "set_index_status t index status =
     (let old = (t ! byte_of index) AND NOT (push_bit (shift_of index) 3)
      in t[byte_of index := old OR push_bit (shift_of index) (word_of_int status)])"

lemma length_set_index_status [simp]:
  "length (set_index_status t i s) = length t"
  by (simp add: set_index_status_def Let_def)

subsection \<open>The codec reads back what it wrote and leaves the other nodes alone\<close>

lemma three_mask_int: "(3::int) = mask 2"
  by (simp add: mask_eq_exp_minus_1)

lemma three_mask_u8: "(3::u8) = mask 2"
  by (simp add: mask_eq_exp_minus_1)

lemma byte_of_div: "byte_of i = nat (i div 4)"
  by (simp add: byte_of_def drop_bit_eq_div)

lemma and3_mod: "(i::int) AND 3 = i mod 4"
  by (simp add: three_mask_int flip: take_bit_eq_mask) (simp add: take_bit_eq_mod)

lemma shift_of_mod: "shift_of i = nat (i mod 4) * 2"
  by (simp add: shift_of_def and3_mod)

lemma shift_of_cases: "shift_of i \<in> {0, 2, 4, 6}"
proof -
  have "0 \<le> i mod 4" "i mod 4 < 4" by simp_all
  then have "i mod 4 \<in> {0,1,2,3}" by auto
  then show ?thesis by (auto simp: shift_of_mod)
qed

lemma field_get_set:
  fixes w v :: u8
  assumes "sh \<in> {0, 2, 4, 6}"
  shows "drop_bit sh ((w AND NOT (push_bit sh 3)) OR push_bit sh v) AND 3 = v AND 3"
  using assms unfolding three_mask_u8
  by (auto intro!: bit_word_eqI simp: bit_simps)

lemma field_frame:
  fixes w v :: u8
  assumes "sh \<in> {0, 2, 4, 6}" "sh' \<in> {0, 2, 4, 6}" "sh \<noteq> sh'"
  shows "drop_bit sh' ((w AND NOT (push_bit sh 3)) OR push_bit sh (v AND 3)) AND 3 = drop_bit sh' w AND 3"
  using assms unfolding three_mask_u8
  by (auto intro!: bit_word_eqI simp: bit_simps)

lemma status_word:
  assumes "0 \<le> st" "st \<le> 3"
  shows "(word_of_int st :: u8) AND 3 = word_of_int st" "uint (word_of_int st :: u8) = st"
proof -
  from assms have "st \<in> {0,1,2,3}" by auto
  then show "(word_of_int st :: u8) AND 3 = word_of_int st" "uint (word_of_int st :: u8) = st"
    by auto
qed

lemma get_set_same:
  assumes "in_tree t i" "0 \<le> st" "st \<le> 3"
  shows "get_index_status (set_index_status t i st) i = st"
proof -
  from assms(1) have len: "byte_of i < length t" by (simp add: in_tree_def)
  have "get_index_status (set_index_status t i st) i =
        uint (drop_bit (shift_of i)
          ((t ! byte_of i AND NOT (push_bit (shift_of i) 3)) OR
           push_bit (shift_of i) (word_of_int st :: u8)) AND 3)"
    by (simp only: get_index_status_def set_index_status_def Let_def
        nth_list_update_eq[OF len])
  also have "\<dots> = uint ((word_of_int st :: u8) AND 3)"
    by (simp only: field_get_set[OF shift_of_cases])
  also have "\<dots> = st"
    using assms(2,3) by (simp add: status_word)
  finally show ?thesis .
qed

lemma same_byte_diff_shift:
  assumes "0 \<le> i" "0 \<le> j" "i \<noteq> j" "byte_of i = byte_of j"
  shows "shift_of i \<noteq> shift_of j"
proof -
  from assms have "i div 4 = j div 4" by (simp add: byte_of_div)
  with assms(3) have "i mod 4 \<noteq> j mod 4"
    by (metis div_mult_mod_eq)
  moreover have "0 \<le> i mod 4" "0 \<le> j mod 4" by simp_all
  ultimately show ?thesis by (simp add: shift_of_mod)
qed

lemma get_set_other:
  assumes "in_tree t i" "0 \<le> j" "j \<noteq> i" "0 \<le> st" "st \<le> 3"
  shows "get_index_status (set_index_status t i st) j = get_index_status t j"
proof (cases "byte_of j = byte_of i")
  case False
  then show ?thesis
    by (simp add: get_index_status_def set_index_status_def Let_def)
next
  case True
  from assms(1) have len: "byte_of i < length t" by (simp add: in_tree_def)
  from True assms have ne: "shift_of i \<noteq> shift_of j"
    using same_byte_diff_shift[of i j] by (simp add: in_tree_def)
  have "get_index_status (set_index_status t i st) j =
        uint (drop_bit (shift_of j)
          ((t ! byte_of i AND NOT (push_bit (shift_of i) 3)) OR
           push_bit (shift_of i) (word_of_int st :: u8)) AND 3)"
    by (simp only: get_index_status_def set_index_status_def Let_def True
        nth_list_update_eq[OF len])
  also have "\<dots> = uint (drop_bit (shift_of j)
          ((t ! byte_of i AND NOT (push_bit (shift_of i) 3)) OR
           push_bit (shift_of i) ((word_of_int st :: u8) AND 3)) AND 3)"
    using assms(4,5) by (simp only: status_word)
  also have "\<dots> = uint (drop_bit (shift_of j) (t ! byte_of i) AND 3)"
    by (simp only: field_frame[OF shift_of_cases shift_of_cases ne])
  also have "\<dots> = get_index_status t j"
    by (simp only: get_index_status_def True)
  finally show ?thesis .
qed

lemma set_other_byte:
  "b \<noteq> byte_of i \<Longrightarrow> set_index_status t i st ! b = t ! b"
  by (simp add: set_index_status_def Let_def)

lemma get_index_status_range: "0 \<le> get_index_status t i \<and> get_index_status t i \<le> 3"
proof -
  have "drop_bit (shift_of i) (t ! byte_of i) AND 3 \<le> (3::u8)"
    by (rule word_and_le1)
  then have "uint (drop_bit (shift_of i) (t ! byte_of i) AND 3) \<le> uint (3::u8)"
    by (simp add: word_le_def)
  then show ?thesis by (simp add: get_index_status_def)
qed

section \<open>Pool, size rounding and tree walks\<close>

datatype 'a cres = Undefined | Abort | Ret 'a

record buddy =
  min_level :: nat
  level :: nat
  tree :: "u8 list"

text \<open>
  \<^verbatim>\<open>static inline int is_pow_of_2(uint32_t x) { return !(x & (x-1)); }\<close>

  \<^verbatim>\<open>next_pow_of_2\<close> has two bodies, chosen by the preprocessor. The definition below is the
  portable \<^verbatim>\<open>#else\<close> body (\<^verbatim>\<open>x |= x>>1; ... x |= x>>16; return x+1;\<close>), every step of
  which is defined on \<^verbatim>\<open>uint32_t\<close>. Under \<^verbatim>\<open>__GNUC__\<close> the body is
  \<^verbatim>\<open>return 0x80000000 >> (__builtin_clzl(x) - 1);\<close> which is not modelled: where
  \<^verbatim>\<open>unsigned long\<close> has 64 bits the shift count is at least 32 for every \<open>x < 2^31\<close> that
  is not a power of two (undefined behaviour), and for \<open>x > 2^31\<close> it yields \<open>1\<close> where the
  portable body yields \<open>0\<close>. A request of at most \<open>2^min_level\<close> bytes, and a request that
  is a power of two, never reaches either body.
\<close>

definition is_pow_of_2 :: "u32 \<Rightarrow> bool" where
  "is_pow_of_2 x \<longleftrightarrow> x AND (x - 1) = 0"

definition next_pow_of_2 :: "u32 \<Rightarrow> u32" where
  "next_pow_of_2 x =
     (if is_pow_of_2 x then x
      else let x1 = x OR drop_bit 1 x;
               x2 = x1 OR drop_bit 2 x1;
               x3 = x2 OR drop_bit 4 x2;
               x4 = x3 OR drop_bit 8 x3;
               x5 = x4 OR drop_bit 16 x4
           in x5 + 1)"

text \<open>
  \<^verbatim>\<open>return (((index + 1) - (1 << level)) << (max_level - level)) << self->min_level;\<close>
  All operands are C \<^verbatim>\<open>int\<close>s. A left shift of an \<^verbatim>\<open>int\<close> is defined only for a count
  from 0 to 31, a left operand that is not negative, and a result that fits, that is
  below \<open>2^31\<close>, and \<^verbatim>\<open>index + 1\<close> must fit as well; every other case is \<open>Undefined\<close>.
\<close>

definition index_offset :: "buddy \<Rightarrow> int \<Rightarrow> int \<Rightarrow> int \<Rightarrow> int cres" where
  "index_offset self index lv max_level =
     (let a = (index + 1) - push_bit (nat lv) 1;
          b = push_bit (nat (max_level - lv)) a;
          c = push_bit (min_level self) b
      in if lv < 0 \<or> 31 \<le> lv \<or> max_level < lv \<or> 32 \<le> max_level - lv
            \<or> 32 \<le> min_level self \<or> 2 ^ 31 \<le> index + 1
            \<or> a < 0 \<or> 2 ^ 31 \<le> b \<or> 2 ^ 31 \<le> c
         then Undefined else Ret c)"

definition buddy_of :: "int \<Rightarrow> int" where
  "buddy_of index = index - 1 + (index AND 1) * 2"

definition parent_of :: "int \<Rightarrow> int" where
  "parent_of index = (index + 1) div 2 - 1"

lemma and1_mod: "(i::int) AND 1 = i mod 2"
  by (simp add: and_one_eq)

lemma buddy_of_pos: "0 < buddy_of i \<Longrightarrow> 1 \<le> i"
  unfolding buddy_of_def and1_mod by presburger

lemma parent_of_less: "1 \<le> i \<Longrightarrow> parent_of i < i \<and> 0 \<le> parent_of i"
  unfolding parent_of_def by presburger

function mark_parent :: "u8 list \<Rightarrow> int \<Rightarrow> u8 list cres" where
  "mark_parent t index =
     (let buddy = buddy_of index in
      if buddy > 0 then
        (if \<not> in_tree t buddy then Undefined
         else if get_index_status t buddy = NODE_USED \<or> get_index_status t buddy = NODE_FULL
         then (if \<not> in_tree t (parent_of index) then Undefined
               else mark_parent (set_index_status t (parent_of index) NODE_FULL) (parent_of index))
         else Ret t)
      else Ret t)"
  by pat_completeness auto
termination
  by (relation "measure (\<lambda>(t, index). nat index)")
     (auto dest!: buddy_of_pos dest: parent_of_less)

declare mark_parent.simps [simp del]

function backtrack :: "int \<Rightarrow> int \<Rightarrow> int \<Rightarrow> (int \<times> int \<times> int) option" where
  "backtrack index lv len =
     (let lv' = lv - 1; len' = len * 2; index' = parent_of index in
      if index' < 0 then None
      else if index' AND 1 \<noteq> 0 then Some (index' + 1, lv', len')
      else backtrack index' lv' len')"
  by pat_completeness auto
termination
proof (relation "measure (\<lambda>(index, lv, len). nat index)", goal_cases)
  case 1 show ?case by simp
next
  case (2 index lv len lv' len' index')
  then have "0 \<le> parent_of index" by simp
  then have "1 \<le> index" unfolding parent_of_def by presburger
  with 2 show ?case using parent_of_less[of index] by simp
qed

declare backtrack.simps [simp del]

function combine_demote :: "u8 list \<Rightarrow> int \<Rightarrow> u8 list cres" where
  "combine_demote t index =
     (let index' = parent_of index in
      if index' \<ge> 0 then
        (if \<not> in_tree t index' then Undefined
         else if get_index_status t index' = NODE_FULL
         then combine_demote (set_index_status t index' NODE_SPLIT) index'
         else Ret t)
      else Ret t)"
  by pat_completeness auto
termination
proof (relation "measure (\<lambda>(t, index). nat index)", goal_cases)
  case 1 show ?case by simp
next
  case (2 t index index')
  then have "0 \<le> parent_of index" by simp
  then have "1 \<le> index" unfolding parent_of_def by presburger
  with 2 show ?case using parent_of_less[of index] by simp
qed

declare combine_demote.simps [simp del]

function combine :: "u8 list \<Rightarrow> int \<Rightarrow> u8 list cres" where
  "combine t index =
     (let buddy = buddy_of index in
      if buddy \<ge> 0 \<and> \<not> in_tree t buddy then Undefined
      else if buddy < 0 \<or> get_index_status t buddy \<noteq> NODE_UNUSED then
        (if \<not> in_tree t index then Undefined
         else combine_demote (set_index_status t index NODE_UNUSED) index)
      else if index < 0 then Undefined
      else combine t (parent_of index))"
  by pat_completeness auto
termination
proof (relation "measure (\<lambda>(t, index). nat index)", goal_cases)
  case 1 show ?case by simp
next
  case (2 t index buddy)
  then have "0 \<le> buddy_of index" "0 \<le> index" by simp_all
  then have "1 \<le> index" unfolding buddy_of_def and1_mod by presburger
  then show ?case using parent_of_less[of index] by simp
qed

declare combine.simps [simp del]

subsection \<open>A rank for the depth-first search\<close>

fun bl :: "nat \<Rightarrow> nat" where
  "bl k = (if k = 0 then 0 else Suc (bl (k div 2)))"

declare bl.simps [simp del]

lemma bl_double: "1 \<le> k \<Longrightarrow> bl (2 * k) = Suc (bl k)"
  by (subst bl.simps) simp

lemma bl_double1: "bl (Suc (2 * k)) = Suc (bl k)"
  by (subst bl.simps) simp

lemma bl_less: "k < 2 ^ bl k"
proof (induction k rule: bl.induct)
  case (1 k)
  show ?case
  proof (cases "k = 0")
    case True then show ?thesis by (simp add: bl.simps)
  next
    case False
    with 1 have "k div 2 < 2 ^ bl (k div 2)" by simp
    then have "k < 2 * 2 ^ bl (k div 2)" by linarith
    with False show ?thesis by (subst bl.simps) simp
  qed
qed

lemma bl_le: "bl k \<le> k"
proof (induction k rule: bl.induct)
  case (1 k)
  show ?case
  proof (cases "k = 0")
    case True then show ?thesis by (simp add: bl.simps)
  next
    case False
    with 1 have "bl (k div 2) \<le> k div 2" by simp
    then have "Suc (bl (k div 2)) \<le> k" using False by linarith
    with False show ?thesis by (subst bl.simps) simp
  qed
qed

definition lo :: "nat \<Rightarrow> nat \<Rightarrow> nat" where
  "lo N k = k * 2 ^ (N - bl k)"

definition hi :: "nat \<Rightarrow> nat \<Rightarrow> nat" where
  "hi N k = (k + 1) * 2 ^ (N - bl k)"

lemma lo_less: "k \<le> N \<Longrightarrow> lo N k < 2 ^ N"
proof -
  assume "k \<le> N"
  then have le: "bl k \<le> N" using bl_le[of k] by simp
  have "k * 2 ^ (N - bl k) < 2 ^ bl k * 2 ^ (N - bl k)"
    using bl_less[of k] by simp
  also have "\<dots> = 2 ^ N" using le by (simp flip: power_add)
  finally show ?thesis by (simp add: lo_def)
qed

lemma lo_double: "1 \<le> k \<Longrightarrow> 2 * k \<le> N \<Longrightarrow> lo N (2 * k) = lo N k"
proof -
  assume k: "1 \<le> k" "2 * k \<le> N"
  have "bl (2 * k) \<le> N" using bl_le[of "2 * k"] k by simp
  then have "Suc (bl k) \<le> N" using k by (simp add: bl_double)
  then have "(2::nat) ^ (N - bl k) = 2 * 2 ^ (N - Suc (bl k))"
    by (metis Suc_diff_Suc Suc_le_lessD power_Suc)
  then show ?thesis using k by (simp add: lo_def bl_double)
qed

lemma hi_odd: "1 \<le> k \<Longrightarrow> 2 * k + 1 \<le> N \<Longrightarrow> hi N (2 * k + 1) = hi N k"
proof -
  assume k: "1 \<le> k" "2 * k + 1 \<le> N"
  have "bl (2 * k + 1) \<le> N" using bl_le[of "2 * k + 1"] k by simp
  then have "Suc (bl k) \<le> N" by (simp add: bl_double1)
  then have "(2::nat) ^ (N - bl k) = 2 * 2 ^ (N - Suc (bl k))"
    by (metis Suc_diff_Suc Suc_le_lessD power_Suc)
  then show ?thesis by (simp add: hi_def bl_double1)
qed

lemma lo_succ_even: "1 \<le> m \<Longrightarrow> lo N (2 * m + 1) = hi N (2 * m)"
  by (simp add: lo_def hi_def bl_double bl_double1)

lemma lo_lt_hi: "lo N k < hi N k"
  by (simp add: lo_def hi_def)

lemma odd_indexE:
  assumes "0 \<le> i" "i mod 2 = 1"
  obtains m :: nat where "1 \<le> m" "i = 2 * int m - 1"
proof -
  define m where "m = nat ((i + 1) div 2)"
  from assms have "int m = (i + 1) div 2" unfolding m_def by simp
  with assms have "1 \<le> int m" "i = 2 * int m - 1" by presburger+
  then show thesis using that[of m] by simp
qed

lemma even_indexE:
  assumes "0 \<le> i" "i mod 2 = 0"
  obtains m :: nat where "i = 2 * int m"
proof -
  define m where "m = nat (i div 2)"
  from assms have "int m = i div 2" unfolding m_def by simp
  with assms have "i = 2 * int m" by presburger
  then show thesis using that[of m] by simp
qed

definition search_rank :: "u8 list \<Rightarrow> int \<Rightarrow> nat" where
  "search_rank t i = 2 ^ (4 * length t) - lo (4 * length t) (nat (i + 1))"

definition search_room :: "u8 list \<Rightarrow> int \<Rightarrow> nat" where
  "search_room t i = 4 * length t - nat (i + 1)"

definition alloc_rel :: "((u8 list \<times> int \<times> int \<times> int \<times> int) \<times> (u8 list \<times> int \<times> int \<times> int \<times> int)) set" where
  "alloc_rel = measures
     [\<lambda>(t, sz, i, lv, len). if in_tree t i then 1 else 0,
      \<lambda>(t, sz, i, lv, len). search_rank t i,
      \<lambda>(t, sz, i, lv, len). search_room t i]"

lemma alloc_relI:
  assumes "in_tree t i"
    and "in_tree t' i' \<Longrightarrow> search_rank t' i' < search_rank t i
           \<or> (search_rank t' i' = search_rank t i \<and> search_room t' i' < search_room t i)"
  shows "((t', sz', i', lv', len'), (t, sz, i, lv, len)) \<in> alloc_rel"
  using assms by (auto simp: alloc_rel_def)

lemma in_tree_iff: "in_tree t i \<longleftrightarrow> 0 \<le> i \<and> i < 4 * int (length t)"
  unfolding in_tree_def byte_of_div by (auto simp: nat_less_iff) 

lemma wf_alloc_rel: "wf alloc_rel"
  by (simp add: alloc_rel_def)

lemma alloc_rel_descend:
  assumes "in_tree t i" "length t' = length t"
  shows "((t', sz, i * 2 + 1, lv', len'), (t, sz, i, lv, len)) \<in> alloc_rel"
proof (rule alloc_relI[OF assms(1)])
  assume True: "in_tree t' (i * 2 + 1)"
  define k where "k = nat (i + 1)"
  from assms(1) have i: "i = int k - 1" "1 \<le> k" unfolding k_def in_tree_iff by linarith+
  have "i * 2 + 1 + 1 = int (2 * k)" unfolding i by simp
  then have k2: "nat (i * 2 + 1 + 1) = 2 * k" by (simp only: nat_int)
  from True assms(2) have "int (2 * k) \<le> int (4 * length t)"
    unfolding i in_tree_iff by simp
  then have b: "2 * k \<le> 4 * length t" by (simp only: of_nat_le_iff)
  have "lo (4 * length t) (2 * k) = lo (4 * length t) k" by (rule lo_double[OF i(2) b])
  moreover have "4 * length t - 2 * k < 4 * length t - k" using i(2) b by linarith
  ultimately show "search_rank t' (i * 2 + 1) < search_rank t i
         \<or> (search_rank t' (i * 2 + 1) = search_rank t i
            \<and> search_room t' (i * 2 + 1) < search_room t i)"
    unfolding search_rank_def search_room_def k2 assms(2) k_def[symmetric] by simp
qed

lemma alloc_rel_sibling:
  assumes "in_tree t i" "i AND 1 \<noteq> 0"
  shows "((t, sz, i + 1, lv', len'), (t, sz, i, lv, len)) \<in> alloc_rel"
proof (rule alloc_relI[OF assms(1)])
  assume True: "in_tree t (i + 1)"
  from assms have "0 \<le> i" "i mod 2 = 1" by (simp_all add: and1_mod in_tree_iff)
  then obtain m :: nat where m: "1 \<le> m" "i = 2 * int m - 1" by (rule odd_indexE)
  have "i + 1 = int (2 * m)" "i + 1 + 1 = int (Suc (2 * m))" unfolding m(2) by simp_all
  then have n: "nat (i + 1) = 2 * m" "nat (i + 1 + 1) = Suc (2 * m)" by (simp_all only: nat_int)
  from True have "int (Suc (2 * m)) \<le> int (4 * length t)"
    unfolding in_tree_iff m(2) by simp
  then have b: "Suc (2 * m) \<le> 4 * length t" by (simp only: of_nat_le_iff)
  have "lo (4 * length t) (Suc (2 * m)) = hi (4 * length t) (2 * m)"
    using lo_succ_even[OF m(1)] by simp
  moreover have "lo (4 * length t) (2 * m) < hi (4 * length t) (2 * m)" by (rule lo_lt_hi)
  moreover have "lo (4 * length t) (Suc (2 * m)) < 2 ^ (4 * length t)" by (rule lo_less[OF b])
  ultimately have "2 ^ (4 * length t) - lo (4 * length t) (Suc (2 * m))
       < 2 ^ (4 * length t) - lo (4 * length t) (2 * m)" by linarith
  then show "search_rank t (i + 1) < search_rank t i
         \<or> (search_rank t (i + 1) = search_rank t i \<and> search_room t (i + 1) < search_room t i)"
    unfolding search_rank_def n by simp
qed

lemma backtrack_unfold:
  "backtrack index lv len =
     (if parent_of index < 0 then None
      else if parent_of index AND 1 \<noteq> 0 then Some (parent_of index + 1, lv - 1, len * 2)
      else backtrack (parent_of index) (lv - 1) (len * 2))"
  by (subst backtrack.simps) (simp add: Let_def)

lemma backtrack_hi:
  assumes "0 \<le> i" "i mod 2 = 0" "nat (i + 1) \<le> N"
    and "backtrack i lv len = Some (i', lv', len')"
  shows "0 \<le> i' \<and> i' \<le> i \<and> lo N (nat (i' + 1)) = hi N (nat (i + 1))"
  using assms
proof (induction i lv len rule: backtrack.induct)
  case (1 index lv len)
  define p where "p = parent_of index"
  from 1(2,3) have p: "index = 2 * p + 2" unfolding p_def parent_of_def by presburger
  from 1(5) have p0: "0 \<le> p"
    by (subst (asm) backtrack_unfold) (auto simp: p_def split: if_splits)
  define k where "k = nat (p + 1)"
  from p0 have k: "1 \<le> k" "p = int k - 1" unfolding k_def by linarith+
  have "index + 1 = int (Suc (2 * k))" unfolding p k(2) by simp
  then have ik: "nat (index + 1) = Suc (2 * k)" by (simp only: nat_int)
  from 1(4) have kN: "2 * k + 1 \<le> N" unfolding ik by simp
  have hk: "hi N (nat (index + 1)) = hi N k" using hi_odd[OF k(1) kN] ik by simp
  show ?case
  proof (cases "p AND 1 \<noteq> 0")
    case True
    with 1(5) p0 have r: "i' = p + 1"
      by (subst (asm) backtrack_unfold) (auto simp: p_def split: if_splits)
    from True have "p mod 2 = 1" by (simp add: and1_mod)
    with p0 obtain m :: nat where m: "1 \<le> m" "p = 2 * int m - 1" by (rule odd_indexE)
    have "p + 1 = int (2 * m)" "i' + 1 = int (Suc (2 * m))" unfolding r m(2) by simp_all
    then have km: "k = 2 * m" "nat (i' + 1) = Suc (2 * m)" unfolding k_def by (simp_all only: nat_int)
    have "lo N (nat (i' + 1)) = hi N k"
      using lo_succ_even[OF m(1), of N] unfolding km by simp
    with hk p0 show ?thesis unfolding r p by simp
  next
    case False
    then have ev: "p mod 2 = 0" by (simp add: and1_mod)
    from False 1(5) p0 have b: "backtrack p (lv - 1) (len * 2) = Some (i', lv', len')"
      by (subst (asm) backtrack_unfold) (auto simp: p_def split: if_splits)
    have "nat (p + 1) \<le> N" using kN unfolding k_def by simp
    from "1.IH"[OF refl refl refl _ _ p0[unfolded p_def] ev[unfolded p_def] this[unfolded p_def] b[unfolded p_def]] p0 False
    have "0 \<le> i' \<and> i' \<le> p \<and> lo N (nat (i' + 1)) = hi N (nat (p + 1))"
      by (simp add: p_def)
    with hk show ?thesis unfolding p k_def by simp
  qed
qed

lemma alloc_rel_backtrack:
  assumes "in_tree t i" "i AND 1 = 0" "backtrack i lv len = Some (i', lv', len')"
  shows "((t, sz, i', lv', len'), (t, sz, i, lv, len)) \<in> alloc_rel"
proof -
  from assms have i: "0 \<le> i" "i mod 2 = 0" "nat (i + 1) \<le> 4 * length t"
    unfolding in_tree_iff and1_mod by linarith+
  from backtrack_hi[OF i assms(3)]
  have r: "0 \<le> i'" "i' \<le> i" "lo (4 * length t) (nat (i' + 1)) = hi (4 * length t) (nat (i + 1))"
    by simp_all
  from r(1,2) assms(1) have it: "in_tree t i'" unfolding in_tree_iff by linarith
  then have "nat (i' + 1) \<le> 4 * length t" unfolding in_tree_iff by linarith
  then have "lo (4 * length t) (nat (i' + 1)) < 2 ^ (4 * length t)" by (rule lo_less)
  moreover have "lo (4 * length t) (nat (i + 1)) < hi (4 * length t) (nat (i + 1))" by (rule lo_lt_hi)
  ultimately have "2 ^ (4 * length t) - lo (4 * length t) (nat (i' + 1))
       < 2 ^ (4 * length t) - lo (4 * length t) (nat (i + 1))" using r(3) by linarith
  then show ?thesis
    by (intro alloc_relI[OF assms(1)]) (simp add: search_rank_def)
qed

subsection \<open>Allocation, release and construction\<close>

function alloc_search ::
  "u8 list \<Rightarrow> int \<Rightarrow> int \<Rightarrow> int \<Rightarrow> int \<Rightarrow> (u8 list \<times> (int \<times> int) option) cres" where
  "alloc_search t sz index lv len =
     (if index < 0 then Ret (t, None)
      else if \<not> in_tree t index then Undefined
      else if sz = len \<and> get_index_status t index = NODE_UNUSED then
        (case mark_parent (set_index_status t index NODE_USED) index of
           Ret t' \<Rightarrow> Ret (t', Some (index, lv))
         | Undefined \<Rightarrow> Undefined
         | Abort \<Rightarrow> Abort)
      else if sz \<noteq> len \<and> get_index_status t index = NODE_UNUSED then
        (if \<not> in_tree t (index * 2 + 2) then Undefined
         else alloc_search
                (set_index_status
                  (set_index_status
                    (set_index_status t index NODE_SPLIT)
                    (index * 2 + 1) NODE_UNUSED)
                  (index * 2 + 2) NODE_UNUSED)
                sz (index * 2 + 1) (lv + 1) (len div 2))
      else if sz \<noteq> len \<and> get_index_status t index \<noteq> NODE_USED
                \<and> get_index_status t index \<noteq> NODE_FULL then
        alloc_search t sz (index * 2 + 1) (lv + 1) (len div 2)
      else if index AND 1 \<noteq> 0 then
        alloc_search t sz (index + 1) lv len
      else
        (case backtrack index lv len of
           None \<Rightarrow> Ret (t, None)
         | Some (index', lv', len') \<Rightarrow> alloc_search t sz index' lv' len'))"
  by pat_completeness auto
termination
proof (relation alloc_rel, goal_cases)
  case 1
  show ?case by (rule wf_alloc_rel)
next
  case (2 t sz index lv len)
  then show ?case by (intro alloc_rel_descend) simp_all
next
  case (3 t sz index lv len)
  then show ?case by (intro alloc_rel_descend) simp_all
next
  case (4 t sz index lv len)
  then show ?case by (intro alloc_rel_sibling) simp_all
next
  case (5 t sz index lv len x2 x y xa ya)
  then show ?case by (intro alloc_rel_backtrack[where lv = lv and len = len]) simp_all
qed

declare alloc_search.simps [simp del]

definition request_units :: "buddy \<Rightarrow> nat \<Rightarrow> int" where
  "request_units self s =
     (if int s \<le> push_bit (min_level self) 1 then 1
      else drop_bit (min_level self) (sint (next_pow_of_2 (word_of_nat s))))"

definition buddy_alloc :: "buddy \<Rightarrow> nat \<Rightarrow> (buddy \<times> int option) cres" where
  "buddy_alloc self s =
     (if 31 \<le> min_level self \<or> 31 \<le> level self then Undefined
      else
        let sz = request_units self s;
            len = push_bit (level self) 1
        in if sz > len then Ret (self, None)
           else
             (case alloc_search (tree self) sz 0 0 len of
                Undefined \<Rightarrow> Undefined
              | Abort \<Rightarrow> Abort
              | Ret (t', None) \<Rightarrow> Ret (self\<lparr>tree := t'\<rparr>, None)
              | Ret (t', Some (index, lv)) \<Rightarrow>
                  (case index_offset self index lv (int (level self)) of
                     Undefined \<Rightarrow> Undefined
                   | Abort \<Rightarrow> Abort
                   | Ret off \<Rightarrow> Ret (self\<lparr>tree := t'\<rparr>, Some off))))"

function free_search :: "u8 list \<Rightarrow> int \<Rightarrow> int \<Rightarrow> int \<Rightarrow> int \<Rightarrow> u8 list cres" where
  "free_search t offset left len index =
     (if \<not> in_tree t index then Undefined
      else if get_index_status t index = NODE_USED then
        (if offset = left then combine t index else Abort)
      else if get_index_status t index = NODE_UNUSED then Abort
      else
        (let len' = len div 2 in
         if offset < left + len' then free_search t offset left len' (index * 2 + 1)
         else free_search t offset (left + len') len' (index * 2 + 2)))"
  by pat_completeness auto
termination
  by (relation "measure (\<lambda>(t, offset, left, len, index). nat (4 * int (length t) - index))")
     (auto simp: in_tree_iff)

declare free_search.simps [simp del]

definition free_unit :: "buddy \<Rightarrow> nat \<Rightarrow> int" where
  "free_unit self ptr = sint (word_of_nat (drop_bit (min_level self) ptr) :: u32)"

definition buddy_free :: "buddy \<Rightarrow> nat \<Rightarrow> buddy cres" where
  "buddy_free self ptr =
     (if 31 \<le> level self then Undefined
      else
        let offset = free_unit self ptr;
            len = push_bit (level self) 1
        in if \<not> (offset \<ge> 0 \<and> offset < len) then Abort
           else (case free_search (tree self) offset 0 len 0 of
                   Undefined \<Rightarrow> Undefined
                 | Abort \<Rightarrow> Abort
                 | Ret t' \<Rightarrow> Ret (self\<lparr>tree := t'\<rparr>)))"

definition buddy_from_buffer :: "u32 \<Rightarrow> u32 \<Rightarrow> buddy option cres" where
  "buddy_from_buffer lvl min_lvl =
     (let self_level = lvl - min_lvl in
      if self_level < 2 \<or> min_lvl < 4 then Ret None
      else if 32 \<le> self_level then Undefined
      else
        let md_size = (2::nat) ^ (unat self_level - 1);
            self = \<lparr>min_level = unat min_lvl, level = unat self_level,
                    tree = replicate md_size 0\<rparr>
        in (case buddy_alloc self md_size of
              Undefined \<Rightarrow> Undefined
            | Abort \<Rightarrow> Abort
            | Ret (self', r) \<Rightarrow> Ret (Some self')))"

subsection \<open>Unfolding rules for running the code on concrete pools\<close>

lemma mark_parent_unfold:
  "mark_parent t index =
     (if buddy_of index > 0 then
        (if \<not> in_tree t (buddy_of index) then Undefined
         else if get_index_status t (buddy_of index) = NODE_USED
                 \<or> get_index_status t (buddy_of index) = NODE_FULL
         then (if \<not> in_tree t (parent_of index) then Undefined
               else mark_parent (set_index_status t (parent_of index) NODE_FULL) (parent_of index))
         else Ret t)
      else Ret t)"
  by (subst mark_parent.simps) (simp add: Let_def)

lemma combine_demote_unfold:
  "combine_demote t index =
     (if parent_of index \<ge> 0 then
        (if \<not> in_tree t (parent_of index) then Undefined
         else if get_index_status t (parent_of index) = NODE_FULL
         then combine_demote (set_index_status t (parent_of index) NODE_SPLIT) (parent_of index)
         else Ret t)
      else Ret t)"
  by (subst combine_demote.simps) (simp add: Let_def)

lemma combine_unfold:
  "combine t index =
     (if buddy_of index \<ge> 0 \<and> \<not> in_tree t (buddy_of index) then Undefined
      else if buddy_of index < 0 \<or> get_index_status t (buddy_of index) \<noteq> NODE_UNUSED then
        (if \<not> in_tree t index then Undefined
         else combine_demote (set_index_status t index NODE_UNUSED) index)
      else if index < 0 then Undefined
      else combine t (parent_of index))"
  by (subst combine.simps) (simp add: Let_def)

lemma free_search_unfold:
  "free_search t offset left len index =
     (if \<not> in_tree t index then Undefined
      else if get_index_status t index = NODE_USED then
        (if offset = left then combine t index else Abort)
      else if get_index_status t index = NODE_UNUSED then Abort
      else if offset < left + len div 2 then free_search t offset left (len div 2) (index * 2 + 1)
      else free_search t offset (left + len div 2) (len div 2) (index * 2 + 2))"
  by (subst free_search.simps) (simp add: Let_def)

lemmas eval_simps =
  mark_parent_unfold combine_demote_unfold combine_unfold free_search_unfold
  backtrack_unfold alloc_search.simps
  buddy_of_def parent_of_def and1_mod in_tree_iff
  get_index_status_def set_index_status_def byte_of_div shift_of_mod
  NODE_UNUSED_def NODE_USED_def NODE_SPLIT_def NODE_FULL_def

lemma replicate_4: "replicate 4 x = [x, x, x, x]"
  by (simp add: eval_nat_numeral)

lemmas run_simps = buddy_from_buffer_def buddy_alloc_def request_units_def buddy_free_def
  free_unit_def
  index_offset_def
  is_pow_of_2_def next_pow_of_2_def eval_simps Let_def

subsection \<open>Runs on the pool with \<open>total_level = 7\<close>, \<open>min_level = 4\<close>\<close>

lemma fresh_7_4:
  "buddy_from_buffer 7 4 = Ret (Some \<lparr>min_level = 4, level = 3, tree = [138, 64, 0, 0]\<rparr>)"
  by (simp add: run_simps replicate_4)

lemma round_20: "next_pow_of_2 4294967316 = 32"
  by (simp add: next_pow_of_2_def is_pow_of_2_def Let_def)

lemma round_wraps: "next_pow_of_2 3221225472 = 0"
  by (simp add: next_pow_of_2_def is_pow_of_2_def Let_def)

lemma search_fresh_2: "alloc_search [138, 64, 0, 0] 2 0 0 8 = Ret ([138, 65, 0, 0], Some (4, 2))"
  by (simp add: eval_simps)

lemma search_fresh_0: "alloc_search [138, 64, 0, 0] 0 0 0 8 = Undefined"
  by (simp add: eval_simps)

lemma alloc_fresh_trunc:
  "buddy_alloc \<lparr>min_level = 4, level = 3, tree = [138, 64, 0, 0]\<rparr> 4294967316
   = Ret (\<lparr>min_level = 4, level = 3, tree = [138, 65, 0, 0]\<rparr>, Some 32)"
  by (simp add: buddy_alloc_def request_units_def round_20 search_fresh_2 index_offset_def Let_def)

lemma alloc_fresh_wrap:
  "buddy_alloc \<lparr>min_level = 4, level = 3, tree = [138, 64, 0, 0]\<rparr> 3221225472 = Undefined"
  by (simp add: buddy_alloc_def request_units_def round_wraps search_fresh_0 Let_def)

lemma alloc_fresh_32:
  "buddy_alloc \<lparr>min_level = 4, level = 3, tree = [138, 64, 0, 0]\<rparr> 32
   = Ret (\<lparr>min_level = 4, level = 3, tree = [138, 65, 0, 0]\<rparr>, Some 32)"
  by (simp add: buddy_alloc_def request_units_def next_pow_of_2_def is_pow_of_2_def
      search_fresh_2 index_offset_def Let_def)

section \<open>Analysis of the tree walks\<close>

subsection \<open>Statuses after a write\<close>

lemmas NODE_defs = NODE_UNUSED_def NODE_USED_def NODE_SPLIT_def NODE_FULL_def

lemma in_tree_set [simp]: "in_tree (set_index_status t i s) j = in_tree t j"
  by (simp add: in_tree_def)

lemma status_cases:
  "get_index_status t i = NODE_UNUSED \<or> get_index_status t i = NODE_USED
   \<or> get_index_status t i = NODE_SPLIT \<or> get_index_status t i = NODE_FULL"
  using get_index_status_range[of t i] unfolding NODE_defs by auto

lemma st_set_same:
  "in_tree t i \<Longrightarrow> s \<in> {NODE_UNUSED, NODE_USED, NODE_SPLIT, NODE_FULL} \<Longrightarrow>
   get_index_status (set_index_status t i s) i = s"
  by (rule get_set_same) (auto simp: NODE_defs)

lemma st_set_other:
  "in_tree t i \<Longrightarrow> s \<in> {NODE_UNUSED, NODE_USED, NODE_SPLIT, NODE_FULL} \<Longrightarrow>
   0 \<le> j \<Longrightarrow> j \<noteq> i \<Longrightarrow>
   get_index_status (set_index_status t i s) j = get_index_status t j"
  by (rule get_set_other) (auto simp: NODE_defs)

subsection \<open>Nodes as paths from the root\<close>

definition child :: "int \<Rightarrow> bool \<Rightarrow> int" where
  "child i b = i * 2 + (if b then 2 else 1)"

fun walk :: "int \<Rightarrow> bool list \<Rightarrow> int" where
  "walk i [] = i"
| "walk i (b # p) = walk (child i b) p"

lemma child_simps: "child i False = i * 2 + 1" "child i True = i * 2 + 2"
  by (simp_all add: child_def)

lemma parent_of_child: "parent_of (child i b) = i"
  unfolding parent_of_def child_def by (cases b) simp_all

lemma buddy_of_child: "buddy_of (child i b) = child i (\<not> b)"
  unfolding buddy_of_def child_def and1_mod by (cases b) (simp_all add: mod_simps)

lemma child_odd: "child i b AND 1 \<noteq> 0 \<longleftrightarrow> \<not> b"
  unfolding child_def and1_mod by (cases b) (simp_all add: mod_simps)

lemma child_gt: "0 \<le> i \<Longrightarrow> i < child i b"
  unfolding child_def by (cases b) simp_all

lemma child_inj: "child i b = child j c \<longleftrightarrow> i = j \<and> b = c"
  unfolding child_def by (cases b; cases c) presburger+

lemma child_cases:
  assumes "1 \<le> i"
  obtains b where "i = child (parent_of i) b" "0 \<le> parent_of i"
proof (cases "i mod 2 = 1")
  case True
  with assms have "i = child (parent_of i) False" "0 \<le> parent_of i"
    unfolding child_def parent_of_def by simp_all presburger+
  then show thesis by (rule that)
next
  case False
  with assms have "i = child (parent_of i) True" "0 \<le> parent_of i"
    unfolding child_def parent_of_def by simp_all presburger+
  then show thesis by (rule that)
qed

lemma walk_append: "walk i (p @ q) = walk (walk i p) q"
  by (induction p arbitrary: i) simp_all

lemma walk_snoc: "walk i (p @ [b]) = child (walk i p) b"
  by (simp add: walk_append)

lemma walk_ge: "0 \<le> i \<Longrightarrow> i \<le> walk i p"
proof (induction p arbitrary: i)
  case Nil then show ?case by simp
next
  case (Cons b p)
  have "i < child i b" using Cons.prems by (rule child_gt)
  moreover have "child i b \<le> walk (child i b) p"
    using Cons.prems child_gt[of i b] by (intro Cons.IH) simp
  ultimately show ?case by simp
qed

lemma walk_gt: "0 \<le> i \<Longrightarrow> p \<noteq> [] \<Longrightarrow> i < walk i p"
proof (cases p)
  case Nil then show "p \<noteq> [] \<Longrightarrow> i < walk i p" by simp
next
  case (Cons b q)
  assume "0 \<le> i"
  then have "i < child i b" by (rule child_gt)
  moreover have "child i b \<le> walk (child i b) q"
    using \<open>0 \<le> i\<close> child_gt[of i b] by (intro walk_ge) simp
  ultimately show "i < walk i p" using Cons by simp
qed

lemma walk_inj:
  assumes "0 \<le> i" "walk i p = walk i q"
  shows "p = q"
  using assms(2)
proof (induction p arbitrary: q rule: rev_induct)
  case Nil
  show ?case
  proof (rule ccontr)
    assume "[] \<noteq> q"
    then have "i < walk i q" using assms(1) by (intro walk_gt) auto
    with Nil show False by simp
  qed
next
  case (snoc b p)
  show ?case
  proof (cases q rule: rev_cases)
    case Nil
    have "i < walk i (p @ [b])" using assms(1) by (intro walk_gt) auto
    with snoc.prems Nil show ?thesis by simp
  next
    case (snoc q' c)
    with snoc.prems have "child (walk i p) b = child (walk i q') c"
      by (simp add: walk_snoc)
    then have "walk i p = walk i q'" "b = c" by (simp_all add: child_inj)
    with snoc.IH[of q'] snoc show ?thesis by simp
  qed
qed

lemma walk_bounds:
  "2 ^ length p \<le> walk 0 p + 1 \<and> walk 0 p + 1 < 2 ^ (length p + 1)"
proof (induction p rule: rev_induct)
  case Nil show ?case by simp
next
  case (snoc b p)
  then show ?case unfolding walk_snoc child_def by (cases b) simp_all
qed

definition room :: "u8 list \<Rightarrow> nat \<Rightarrow> bool" where
  "room t D \<longleftrightarrow> 2 ^ (D + 1) \<le> 4 * int (length t)"

lemma room_set [simp]: "room (set_index_status t i s) D = room t D"
  by (simp add: room_def)

lemma node_in_tree:
  assumes "room t D" "length p \<le> D"
  shows "in_tree t (walk 0 p)" "in_tree t (walk 0 p + 1)" "0 \<le> walk 0 p"
proof -
  have "(2::int) ^ (length p + 1) \<le> 2 ^ (D + 1)"
    using assms(2) by (intro power_increasing) simp_all
  with walk_bounds[of p] assms(1) have "walk 0 p + 1 < 4 * int (length t)"
    unfolding room_def by linarith
  moreover have "0 \<le> walk 0 p" by (rule walk_ge) simp
  ultimately show "in_tree t (walk 0 p)" "in_tree t (walk 0 p + 1)" "0 \<le> walk 0 p"
    unfolding in_tree_iff by simp_all
qed

lemma child_in_tree:
  assumes "room t D" "length p < D"
  shows "in_tree t (child (walk 0 p) b)" "in_tree t (walk 0 p * 2 + 1)" "in_tree t (walk 0 p * 2 + 2)"
proof -
  have "in_tree t (walk 0 (p @ [c]))" for c
    using assms by (intro node_in_tree(1)[where D = D]) simp_all
  then have *: "in_tree t (child (walk 0 p) c)" for c by (simp add: walk_snoc)
  from * show "in_tree t (child (walk 0 p) b)" .
  from *[of False] show "in_tree t (walk 0 p * 2 + 1)" by (simp add: child_def)
  from *[of True] show "in_tree t (walk 0 p * 2 + 2)" by (simp add: child_def)
qed

definition split_node :: "u8 list \<Rightarrow> int \<Rightarrow> u8 list" where
  "split_node t i =
     set_index_status
       (set_index_status (set_index_status t i NODE_SPLIT) (i * 2 + 1) NODE_UNUSED)
       (i * 2 + 2) NODE_UNUSED"

fun descend_free :: "u8 list \<Rightarrow> int \<Rightarrow> nat \<Rightarrow> (u8 list \<times> bool list) option" where
  "descend_free t i 0 =
     (if get_index_status t i = NODE_UNUSED then Some (set_index_status t i NODE_USED, []) else None)"
| "descend_free t i (Suc n) =
     (if get_index_status t i = NODE_UNUSED then
        map_option (\<lambda>(t', p). (t', False # p)) (descend_free (split_node t i) (child i False) n)
      else if get_index_status t i = NODE_USED \<or> get_index_status t i = NODE_FULL then None
      else (case descend_free t (child i False) n of
              Some (t', p) \<Rightarrow> Some (t', False # p)
            | None \<Rightarrow> map_option (\<lambda>(t', p). (t', True # p)) (descend_free t (child i True) n)))"

definition alloc_next :: "u8 list \<Rightarrow> int \<Rightarrow> int \<Rightarrow> int \<Rightarrow> int \<Rightarrow> (u8 list \<times> (int \<times> int) option) cres" where
  "alloc_next t sz index lv len =
     (if index AND 1 \<noteq> 0 then alloc_search t sz (index + 1) lv len
      else (case backtrack index lv len of
              None \<Rightarrow> Ret (t, None)
            | Some (index', lv', len') \<Rightarrow> alloc_search t sz index' lv' len'))"

definition found :: "u8 list \<Rightarrow> int \<Rightarrow> int \<Rightarrow> (u8 list \<times> (int \<times> int) option) cres" where
  "found t1 r lv =
     (case mark_parent t1 r of
        Ret t' \<Rightarrow> Ret (t', Some (r, lv))
      | Undefined \<Rightarrow> Undefined
      | Abort \<Rightarrow> Abort)"

lemma alloc_search_cases:
  assumes "0 \<le> index" "in_tree t index"
  shows "alloc_search t sz index lv len =
     (if sz = len then
        (if get_index_status t index = NODE_UNUSED
         then found (set_index_status t index NODE_USED) index lv
         else alloc_next t sz index lv len)
      else if get_index_status t index = NODE_UNUSED then
        (if \<not> in_tree t (index * 2 + 2) then Undefined
         else alloc_search (split_node t index) sz (index * 2 + 1) (lv + 1) (len div 2))
      else if get_index_status t index = NODE_USED \<or> get_index_status t index = NODE_FULL
      then alloc_next t sz index lv len
      else alloc_search t sz (index * 2 + 1) (lv + 1) (len div 2))"
proof (cases "sz = len")
  case True
  from assms show ?thesis unfolding True
    by (subst alloc_search.simps) (simp add: found_def alloc_next_def split_node_def)
next
  case False
  with assms show ?thesis
    by (subst alloc_search.simps) (simp add: found_def alloc_next_def split_node_def)
qed

lemma alloc_next_right_child:
  assumes "0 \<le> i" "len' * 2 = len"
  shows "alloc_next t sz (child i True) (lv + 1) len' = alloc_next t sz i lv len"
  unfolding alloc_next_def[of t sz "child i True"]
  using assms
  by (subst backtrack_unfold)
     (simp add: child_odd parent_of_child alloc_next_def)

lemma alloc_next_left_child:
  "alloc_next t sz (child i False) lv len = alloc_search t sz (child i True) lv len"
proof -
  have "child i False + 1 = child i True" by (simp add: child_def)
  then show ?thesis unfolding alloc_next_def by (simp add: child_odd)
qed

lemma split_node_status:
  assumes "0 \<le> i" "in_tree t (i * 2 + 2)"
  shows "get_index_status (split_node t i) i = NODE_SPLIT"
    and "get_index_status (split_node t i) (i * 2 + 1) = NODE_UNUSED"
    and "get_index_status (split_node t i) (i * 2 + 2) = NODE_UNUSED"
    and "\<And>j. 0 \<le> j \<Longrightarrow> j \<noteq> i \<Longrightarrow> j \<noteq> i * 2 + 1 \<Longrightarrow> j \<noteq> i * 2 + 2 \<Longrightarrow>
           get_index_status (split_node t i) j = get_index_status t j"
proof -
  from assms have it: "in_tree t i" "in_tree t (i * 2 + 1)" "in_tree t (i * 2 + 2)"
    unfolding in_tree_iff by simp_all
  from assms(1) have ne: "i * 2 + 1 \<noteq> i" "i * 2 + 2 \<noteq> i" "i * 2 + 2 \<noteq> i * 2 + 1"
    "0 \<le> i * 2 + 1" "0 \<le> i * 2 + 2" by simp_all
  show "get_index_status (split_node t i) i = NODE_SPLIT"
    unfolding split_node_def using it assms(1) ne
    by (simp add: st_set_other st_set_same)
  show "get_index_status (split_node t i) (i * 2 + 1) = NODE_UNUSED"
    unfolding split_node_def using it assms(1) ne
    by (simp add: st_set_other st_set_same)
  show "get_index_status (split_node t i) (i * 2 + 2) = NODE_UNUSED"
    unfolding split_node_def using it assms(1) ne
    by (simp add: st_set_other st_set_same)
  show "get_index_status (split_node t i) j = get_index_status t j"
    if "0 \<le> j" "j \<noteq> i" "j \<noteq> i * 2 + 1" "j \<noteq> i * 2 + 2" for j
    unfolding split_node_def using it that
    by (simp add: st_set_other)
qed

lemma room_split [simp]: "room (split_node t i) D = room t D"
  by (simp add: split_node_def)

lemma in_tree_split [simp]: "in_tree (split_node t i) j = in_tree t j"
  by (simp add: split_node_def)

lemma descend_free_unused:
  assumes "room t D" "length q + n \<le> D" "get_index_status t (walk 0 q) = NODE_UNUSED"
  shows "descend_free t (walk 0 q) n \<noteq> None"
  using assms
proof (induction n arbitrary: t q)
  case 0
  then show ?case by simp
next
  case (Suc n)
  let ?i = "walk 0 q"
  from Suc.prems have lt: "length q < D" by simp
  have i0: "0 \<le> ?i" using node_in_tree(3)[OF Suc.prems(1)] lt by simp
  have it: "in_tree t (?i * 2 + 2)" using child_in_tree(3)[OF Suc.prems(1) lt] .
  have "get_index_status (split_node t ?i) (walk 0 (q @ [False])) = NODE_UNUSED"
    using split_node_status(2)[OF i0 it] by (simp add: walk_snoc child_def)
  then have "descend_free (split_node t ?i) (walk 0 (q @ [False])) n \<noteq> None"
    using Suc.prems by (intro Suc.IH) simp_all
  then show ?case using Suc.prems(3) by (simp add: walk_snoc)
qed

lemma pow_ne:
  fixes a b :: nat
  shows "a \<noteq> b \<Longrightarrow> (2::int) ^ a \<noteq> 2 ^ b"
  by simp

lemma alloc_search_descend:
  assumes "room t D" "length q + n \<le> D"
  shows "alloc_search t (2 ^ (D - (length q + n))) (walk 0 q) (int (length q)) (2 ^ (D - length q)) =
     (case descend_free t (walk 0 q) n of
        Some (t1, p) \<Rightarrow> found t1 (walk (walk 0 q) p) (int (length q + n))
      | None \<Rightarrow> alloc_next t (2 ^ (D - (length q + n))) (walk 0 q) (int (length q))
                  (2 ^ (D - length q)))"
  using assms
proof (induction n arbitrary: t q)
  case 0
  have "0 \<le> walk 0 q" "in_tree t (walk 0 q)"
    using node_in_tree[OF 0(1), of q] 0(2) by simp_all
  then show ?case
    by (subst alloc_search_cases) simp_all
next
  case (Suc n)
  let ?i = "walk 0 q"
  let ?sz = "(2::int) ^ (D - (length q + Suc n))"
  let ?len = "(2::int) ^ (D - length q)"
  from Suc.prems have lt: "length q < D" by simp
  have i0: "0 \<le> ?i" and iT: "in_tree t ?i"
    using node_in_tree[OF Suc.prems(1), of q] lt by simp_all
  have cT: "in_tree t (?i * 2 + 2)" using child_in_tree(3)[OF Suc.prems(1) lt] .
  have ne: "?sz \<noteq> ?len" using lt by (intro pow_ne) simp
  from lt obtain k where k: "D - length q = Suc k"
    by (cases "D - length q") simp_all
  then have k': "D - length (q @ [b]) = k" for b by simp
  have half: "?len div 2 = 2 ^ k" "(2::int) ^ k * 2 = ?len"
    unfolding k by simp_all
  have IH: "alloc_search t' ?sz (child ?i b) (int (length q) + 1) (2 ^ k) =
       (case descend_free t' (child ?i b) n of
          Some (t1, p) \<Rightarrow> found t1 (walk (child ?i b) p) (int (length q + Suc n))
        | None \<Rightarrow> alloc_next t' ?sz (child ?i b) (int (length q) + 1) (2 ^ k))"
    if "room t' D" for t' b
  proof -
    have e: "length (q @ [b]) + n = length q + Suc n" "walk 0 (q @ [b]) = child ?i b"
      "int (length (q @ [b])) = int (length q) + 1" by (simp_all add: walk_snoc)
    from Suc.prems(2) have "length (q @ [b]) + n \<le> D" by simp
    from Suc.IH[OF that this] show ?thesis unfolding e k' .
  qed
  have st: "get_index_status t ?i = NODE_UNUSED \<or> get_index_status t ?i = NODE_USED
       \<or> get_index_status t ?i = NODE_SPLIT \<or> get_index_status t ?i = NODE_FULL"
    by (rule status_cases)
  have step: "alloc_search t ?sz ?i (int (length q)) ?len =
      (if get_index_status t ?i = NODE_UNUSED then
         alloc_search (split_node t ?i) ?sz (child ?i False) (int (length q) + 1) (2 ^ k)
       else if get_index_status t ?i = NODE_USED \<or> get_index_status t ?i = NODE_FULL
       then alloc_next t ?sz ?i (int (length q)) ?len
       else alloc_search t ?sz (child ?i False) (int (length q) + 1) (2 ^ k))"
    using ne cT by (subst alloc_search_cases[OF i0 iT]) (simp add: half child_def)
  consider (U) "get_index_status t ?i = NODE_UNUSED"
    | (X) "get_index_status t ?i = NODE_USED \<or> get_index_status t ?i = NODE_FULL"
    | (S) "get_index_status t ?i = NODE_SPLIT"
    using st by blast
  then show ?case
  proof cases
    case U
    have "get_index_status (split_node t ?i) (walk 0 (q @ [False])) = NODE_UNUSED"
      using split_node_status(2)[OF i0 cT] by (simp add: walk_snoc child_def)
    then have "descend_free (split_node t ?i) (walk 0 (q @ [False])) n \<noteq> None"
      using Suc.prems by (intro descend_free_unused[where D = D]) simp_all
    then obtain t1 p where d: "descend_free (split_node t ?i) (child ?i False) n = Some (t1, p)"
      by (auto simp: walk_snoc)
    show ?thesis
      unfolding step using U IH[of "split_node t ?i" False] Suc.prems(1) d
      by simp
  next
    case X
    then show ?thesis unfolding step by (auto simp: NODE_defs)
  next
    case S
    show ?thesis
    proof (cases "descend_free t (child ?i False) n")
      case (Some a)
      then show ?thesis
        unfolding step using S IH[of t False] Suc.prems(1)
        by (cases a) (simp add: NODE_defs)
    next
      case None
      have "alloc_search t ?sz ?i (int (length q)) ?len =
            alloc_search t ?sz (child ?i True) (int (length q) + 1) (2 ^ k)"
        unfolding step using S IH[of t False] Suc.prems(1) None
        by (simp add: NODE_defs alloc_next_left_child)
      also have "\<dots> = (case descend_free t (child ?i True) n of
          Some (t1, p) \<Rightarrow> found t1 (walk (child ?i True) p) (int (length q + Suc n))
        | None \<Rightarrow> alloc_next t ?sz ?i (int (length q)) ?len)"
        using IH[of t True] Suc.prems(1)
        by (simp add: alloc_next_right_child[OF i0 half(2)] split: option.splits)
      finally show ?thesis using S None
        by (auto simp: NODE_defs split: option.splits)
    qed
  qed
qed

lemma alloc_search_root:
  assumes "room t D" "L \<le> D"
  shows "alloc_search t (2 ^ (D - L)) 0 0 (2 ^ D) =
     (case descend_free t 0 L of
        Some (t1, p) \<Rightarrow> found t1 (walk 0 p) (int L)
      | None \<Rightarrow> Ret (t, None))"
proof -
  have "alloc_next t sz 0 0 len = Ret (t, None)" for sz len
    unfolding alloc_next_def by (subst backtrack_unfold) (simp add: parent_of_def)
  then show ?thesis
    using alloc_search_descend[OF assms(1), of "[]" L] assms(2)
    by (simp split: option.splits)
qed

subsection \<open>Marking parents along a path\<close>

definition full :: "u8 list \<Rightarrow> int \<Rightarrow> bool" where
  "full t i \<longleftrightarrow> get_index_status t i = NODE_USED \<or> get_index_status t i = NODE_FULL"

lemma walk_child_ne_self: "0 \<le> i \<Longrightarrow> walk (child i b) r \<noteq> i"
  using walk_gt[of i "b # r"] by simp

lemma walk_child_ne_sibling: "0 \<le> i \<Longrightarrow> walk (child i b) r \<noteq> walk (child i (\<not> b)) r'"
  using walk_inj[of i "b # r" "(\<not> b) # r'"] by auto

fun fix_full :: "u8 list \<Rightarrow> int \<Rightarrow> bool list \<Rightarrow> u8 list \<times> bool" where
  "fix_full t i [] = (t, True)"
| "fix_full t i (b # p) =
     (case fix_full t (child i b) p of
        (t', cf) \<Rightarrow>
          if cf \<and> full t' (child i (\<not> b)) then (set_index_status t' i NODE_FULL, True)
          else (t', False))"

lemma length_fix_full [simp]: "length (fst (fix_full t i p)) = length t"
proof (induction p arbitrary: i)
  case Nil
  show ?case by simp
next
  case (Cons b p)
  obtain t' cf where f: "fix_full t (child i b) p = (t', cf)" by (cases "fix_full t (child i b) p")
  from Cons[of "child i b"] f have "length t' = length t" by simp
  then show ?case by (simp add: f)
qed

lemma mark_parent_root: "mark_parent t 0 = Ret t"
  by (subst mark_parent_unfold) (simp add: buddy_of_def)

lemma mark_parent_child:
  assumes "0 \<le> i" "in_tree t (child i True)"
  shows "mark_parent t (child i b) =
     (if full t (child i (\<not> b)) then mark_parent (set_index_status t i NODE_FULL) i else Ret t)"
proof -
  from assms have "0 < child i (\<not> b)" "in_tree t (child i (\<not> b))" "in_tree t i"
    unfolding in_tree_iff child_def by (cases b; simp)+
  then show ?thesis
    by (subst mark_parent_unfold) (simp add: buddy_of_child parent_of_child full_def)
qed

lemma mark_parent_fix_full:
  assumes "0 \<le> i" "in_tree t (walk i p + 1)"
  shows "mark_parent t (walk i p) =
     (case fix_full t i p of (t', cf) \<Rightarrow> if cf then mark_parent t' i else Ret t')"
  using assms
proof (induction p arbitrary: i)
  case Nil
  then show ?case by simp
next
  case (Cons b p)
  let ?c = "child i b"
  have c0: "0 \<le> ?c" using child_gt[OF Cons.prems(1), of b] Cons.prems(1) by simp
  obtain t' cf where f: "fix_full t ?c p = (t', cf)" by (cases "fix_full t ?c p")
  have len: "length t' = length t" using length_fix_full[of t ?c p] f by simp
  have IH: "mark_parent t (walk ?c p) = (if cf then mark_parent t' ?c else Ret t')"
    using Cons.IH[OF c0] Cons.prems(2) f by simp
  have "i * 2 + 1 \<le> ?c" unfolding child_def by simp
  with walk_ge[OF c0, of p] have "i * 2 + 2 \<le> walk ?c p + 1" by linarith
  moreover from Cons.prems(2) have "walk ?c p + 1 < 4 * int (length t)"
    unfolding in_tree_iff by simp
  ultimately have "in_tree t' (child i True)"
    using Cons.prems(1) unfolding in_tree_iff len child_simps by linarith
  from mark_parent_child[OF Cons.prems(1) this, of b]
  show ?case using IH f by simp
qed

lemma mark_parent_path:
  assumes "in_tree t (walk 0 p + 1)"
  shows "mark_parent t (walk 0 p) = Ret (fst (fix_full t 0 p))"
  using mark_parent_fix_full[OF _ assms] by (simp add: mark_parent_root split: prod.splits)

subsection \<open>The status tree as a term\<close>

datatype bt = Free | Used | Split bt bt | Full bt bt | Junk

fun abs_tree :: "u8 list \<Rightarrow> int \<Rightarrow> nat \<Rightarrow> bt" where
  "abs_tree t i 0 =
     (if get_index_status t i = NODE_UNUSED then Free
      else if get_index_status t i = NODE_USED then Used
      else if get_index_status t i = NODE_SPLIT then Split Junk Junk
      else Full Junk Junk)"
| "abs_tree t i (Suc n) =
     (if get_index_status t i = NODE_UNUSED then Free
      else if get_index_status t i = NODE_USED then Used
      else if get_index_status t i = NODE_SPLIT
      then Split (abs_tree t (child i False) n) (abs_tree t (child i True) n)
      else Full (abs_tree t (child i False) n) (abs_tree t (child i True) n))"

fun isfull :: "bt \<Rightarrow> bool" where
  "isfull Used = True"
| "isfull (Full l r) = True"
| "isfull b = False"

definition mk :: "bt \<Rightarrow> bt \<Rightarrow> bt" where
  "mk l r = (if isfull l \<and> isfull r then Full l r else Split l r)"

fun alloc_bt :: "nat \<Rightarrow> bt \<Rightarrow> (bt \<times> bool list) option" where
  "alloc_bt 0 b = (if b = Free then Some (Used, []) else None)"
| "alloc_bt (Suc m) Free =
     map_option (\<lambda>(l, p). (Split l Free, False # p)) (alloc_bt m Free)"
| "alloc_bt (Suc m) (Split l r) =
     (case alloc_bt m l of
        Some (l', p) \<Rightarrow> Some (mk l' r, False # p)
      | None \<Rightarrow> map_option (\<lambda>(r', p). (mk l r', True # p)) (alloc_bt m r))"
| "alloc_bt (Suc m) b = None"

lemma isfull_abs: "isfull (abs_tree t i n) = full t i"
  using status_cases[of t i] by (cases n) (auto simp: full_def NODE_defs)

lemma abs_free_iff: "abs_tree t i n = Free \<longleftrightarrow> get_index_status t i = NODE_UNUSED"
  by (cases n) (auto simp: NODE_defs)

lemma abs_used_iff: "abs_tree t i n = Used \<longleftrightarrow> get_index_status t i = NODE_USED"
  by (cases n) (auto simp: NODE_defs)

lemma abs_frame:
  assumes "\<And>r. length r \<le> n \<Longrightarrow> get_index_status t' (walk i r) = get_index_status t (walk i r)"
  shows "abs_tree t' i n = abs_tree t i n"
  using assms
proof (induction n arbitrary: i)
  case 0
  from 0[of "[]"] show ?case by simp
next
  case (Suc n)
  have s: "get_index_status t' i = get_index_status t i" using Suc.prems[of "[]"] by simp
  have "abs_tree t' (child i b) n = abs_tree t (child i b) n" for b
  proof (rule Suc.IH)
    fix r :: "bool list" assume "length r \<le> n"
    then show "get_index_status t' (walk (child i b) r) = get_index_status t (walk (child i b) r)"
      using Suc.prems[of "b # r"] by simp
  qed
  then show ?case by (simp add: s)
qed

lemma alloc_bt_Free: "alloc_bt m Free \<noteq> None"
  by (induction m) simp_all

definition untouched :: "u8 list \<Rightarrow> u8 list \<Rightarrow> int \<Rightarrow> bool" where
  "untouched t t' i \<longleftrightarrow>
     length t' = length t
     \<and> (\<forall>j\<ge>0. (\<forall>r. j \<noteq> walk i r) \<longrightarrow> get_index_status t' j = get_index_status t j)"

lemma untouched_refl: "untouched t t i"
  by (simp add: untouched_def)

lemma untouched_child:
  assumes "untouched t t' (child i b)" "0 \<le> i"
  shows "untouched t t' i"
    and "get_index_status t' i = get_index_status t i"
    and "abs_tree t' (child i (\<not> b)) n = abs_tree t (child i (\<not> b)) n"
    and "get_index_status t' (child i (\<not> b)) = get_index_status t (child i (\<not> b))"
proof -
  have sub: "(\<forall>r. j \<noteq> walk i r) \<Longrightarrow> (\<forall>r. j \<noteq> walk (child i b) r)" for j
  proof (intro allI)
    fix r assume "\<forall>r. j \<noteq> walk i r"
    then have "j \<noteq> walk i (b # r)" by blast
    then show "j \<noteq> walk (child i b) r" by simp
  qed
  with assms(1) show "untouched t t' i" unfolding untouched_def by blast
  have "\<forall>r. i \<noteq> walk (child i b) r" using walk_child_ne_self[OF assms(2)] by metis
  with assms show "get_index_status t' i = get_index_status t i" unfolding untouched_def by blast
  have o: "get_index_status t' (walk (child i (\<not> b)) r') = get_index_status t (walk (child i (\<not> b)) r')" for r'
  proof -
    have "0 \<le> child i (\<not> b)" using child_gt[OF assms(2), of "\<not> b"] assms(2) by simp
    then have "0 \<le> walk (child i (\<not> b)) r'" using walk_ge[of "child i (\<not> b)" r'] by simp
    moreover have "\<forall>r. walk (child i (\<not> b)) r' \<noteq> walk (child i b) r"
      using walk_child_ne_sibling[OF assms(2), of b] by metis
    ultimately show ?thesis using assms(1) unfolding untouched_def by blast
  qed
  show "abs_tree t' (child i (\<not> b)) n = abs_tree t (child i (\<not> b)) n"
    by (rule abs_frame) (rule o)
  show "get_index_status t' (child i (\<not> b)) = get_index_status t (child i (\<not> b))"
    using o[of "[]"] by simp
qed

lemma abs_set_parent:
  assumes "in_tree t i" "s \<in> {NODE_UNUSED, NODE_USED, NODE_SPLIT, NODE_FULL}" "0 \<le> i"
  shows "abs_tree (set_index_status t i s) (child i b) n = abs_tree t (child i b) n"
proof (rule abs_frame)
  fix r :: "bool list"
  have "0 \<le> child i b" using child_gt[OF assms(3), of b] assms(3) by simp
  then have "0 \<le> walk (child i b) r" using walk_ge[of "child i b" r] by simp
  moreover have "walk (child i b) r \<noteq> i" by (rule walk_child_ne_self[OF assms(3)])
  ultimately show "get_index_status (set_index_status t i s) (walk (child i b) r)
      = get_index_status t (walk (child i b) r)"
    using assms by (intro st_set_other) simp_all
qed

lemma untouched_set:
  assumes "untouched t t' i" "in_tree t i" "s \<in> {NODE_UNUSED, NODE_USED, NODE_SPLIT, NODE_FULL}"
  shows "untouched t (set_index_status t' i s) i"
  unfolding untouched_def
proof (intro conjI allI impI)
  show "length (set_index_status t' i s) = length t" using assms(1) by (simp add: untouched_def)
  fix j :: int assume j: "0 \<le> j" "\<forall>r. j \<noteq> walk i r"
  then have "j \<noteq> i" by (metis walk.simps(1))
  moreover have "in_tree t' i" using assms(1,2) by (simp add: untouched_def in_tree_iff)
  ultimately have "get_index_status (set_index_status t' i s) j = get_index_status t' j"
    using assms(3) j(1) by (intro st_set_other) simp_all
  with assms(1) j show "get_index_status (set_index_status t' i s) j = get_index_status t j"
    by (simp add: untouched_def)
qed

lemma untouched_trans: "untouched t t' i \<Longrightarrow> untouched t' t'' i \<Longrightarrow> untouched t t'' i"
  unfolding untouched_def by simp

lemma untouched_split:
  assumes "0 \<le> i" "in_tree t (i * 2 + 2)"
  shows "untouched t (split_node t i) i"
  unfolding untouched_def
proof (intro conjI allI impI)
  show "length (split_node t i) = length t" by (simp add: split_node_def)
  fix j :: int assume j: "0 \<le> j" "\<forall>r. j \<noteq> walk i r"
  from j(2) have "j \<noteq> walk i []" "j \<noteq> walk i [False]" "j \<noteq> walk i [True]" by blast+
  then have "j \<noteq> i" "j \<noteq> i * 2 + 1" "j \<noteq> i * 2 + 2" by (simp_all add: child_def)
  then show "get_index_status (split_node t i) j = get_index_status t j"
    using split_node_status(4)[OF assms j(1)] by simp
qed

lemma untouched_in_tree: "untouched t t' i \<Longrightarrow> in_tree t' j = in_tree t j"
  by (simp add: untouched_def in_tree_iff)

lemma untouched_room: "untouched t t' i \<Longrightarrow> room t' D = room t D"
  by (simp add: untouched_def room_def)

text \<open>What one step of the upward marking does to the abstract subtree.\<close>

lemma fix_step:
  assumes i0: "0 \<le> i" and iT: "in_tree t i"
    and st: "get_index_status t i = NODE_SPLIT \<or> get_index_status t i = NODE_FULL"
    and U: "untouched t t2' (child i b)"
    and C: "cf' = isfull (abs_tree t2' (child i b) n)"
  shows "case (if cf' \<and> full t2' (child i (\<not> b)) then (set_index_status t2' i NODE_FULL, True)
               else (t2', False)) of
           (t2, cf) \<Rightarrow>
             untouched t t2 i
             \<and> abs_tree t2 (child i b) n = abs_tree t2' (child i b) n
             \<and> abs_tree t2 (child i (\<not> b)) n = abs_tree t (child i (\<not> b)) n
             \<and> (if cf then get_index_status t2 i = NODE_FULL
                 else get_index_status t2 i = get_index_status t i)
             \<and> cf = (isfull (abs_tree t2' (child i b) n) \<and> isfull (abs_tree t (child i (\<not> b)) n))"
proof -
  note uc = untouched_child[OF U i0]
  have iT': "in_tree t2' i" using iT untouched_in_tree[OF U] by simp
  have fr: "full t2' (child i (\<not> b)) = isfull (abs_tree t (child i (\<not> b)) n)"
    using uc(3)[of n] isfull_abs[of t2' "child i (\<not> b)" n] by simp
  show ?thesis
  proof (cases "cf' \<and> full t2' (child i (\<not> b))")
    case True
    have "untouched t (set_index_status t2' i NODE_FULL) i"
      using untouched_set[OF uc(1) iT] by simp
    moreover have "abs_tree (set_index_status t2' i NODE_FULL) (child i c) n = abs_tree t2' (child i c) n" for c
      using abs_set_parent[OF iT' _ i0] by simp
    moreover have "get_index_status (set_index_status t2' i NODE_FULL) i = NODE_FULL"
      using st_set_same[OF iT'] by simp
    ultimately show ?thesis using True uc(3)[of n] C fr by simp
  next
    case False
    then show ?thesis using uc C fr by auto
  qed
qed

lemma alloc_refines:
  assumes "room t D" "length q + n \<le> D" "m \<le> n"
  shows "case descend_free t (walk 0 q) m of
           None \<Rightarrow> alloc_bt m (abs_tree t (walk 0 q) n) = None
         | Some (t1, p) \<Rightarrow>
             (case fix_full t1 (walk 0 q) p of
                (t2, cf) \<Rightarrow>
                  alloc_bt m (abs_tree t (walk 0 q) n) = Some (abs_tree t2 (walk 0 q) n, p)
                  \<and> cf = isfull (abs_tree t2 (walk 0 q) n)
                  \<and> untouched t t2 (walk 0 q))"
  using assms
proof (induction m arbitrary: t q n)
  case 0
  let ?i = "walk 0 q"
  have i0: "0 \<le> ?i" and iT: "in_tree t ?i"
    using node_in_tree[OF 0(1), of q] 0(2) by simp_all
  show ?case
  proof (cases "get_index_status t ?i = NODE_UNUSED")
    case True
    have "abs_tree (set_index_status t ?i NODE_USED) ?i n = Used"
      using st_set_same[OF iT, of NODE_USED] by (simp add: abs_used_iff)
    moreover have "abs_tree t ?i n = Free" using True by (simp add: abs_free_iff)
    moreover have "untouched t (set_index_status t ?i NODE_USED) ?i"
      using untouched_set[OF untouched_refl iT] by simp
    ultimately show ?thesis using True by simp
  next
    case False
    then have "abs_tree t ?i n \<noteq> Free" by (simp add: abs_free_iff)
    with False show ?thesis by simp
  qed
next
  case (Suc m)
  let ?i = "walk 0 q"
  from Suc.prems obtain n' where n: "n = Suc n'" by (cases n) simp_all
  from Suc.prems n have lt: "length q < D" by simp
  have i0: "0 \<le> ?i" and iT: "in_tree t ?i"
    using node_in_tree[OF Suc.prems(1), of q] lt by simp_all
  have cT: "in_tree t (?i * 2 + 2)" using child_in_tree(3)[OF Suc.prems(1) lt] .
  have IH: "case descend_free t' (child ?i b) m of
           None \<Rightarrow> alloc_bt m (abs_tree t' (child ?i b) n') = None
         | Some (t1, p) \<Rightarrow>
             (case fix_full t1 (child ?i b) p of
                (t2, cf) \<Rightarrow>
                  alloc_bt m (abs_tree t' (child ?i b) n') = Some (abs_tree t2 (child ?i b) n', p)
                  \<and> cf = isfull (abs_tree t2 (child ?i b) n')
                  \<and> untouched t' t2 (child ?i b))"
    if "room t' D" for t' b
  proof -
    have "length (q @ [b]) + n' \<le> D" "m \<le> n'" using Suc.prems n by simp_all
    from Suc.IH[OF that this] show ?thesis unfolding walk_snoc .
  qed
  consider (U) "get_index_status t ?i = NODE_UNUSED"
    | (X) "get_index_status t ?i = NODE_USED \<or> get_index_status t ?i = NODE_FULL"
    | (S) "get_index_status t ?i = NODE_SPLIT"
    using status_cases[of t ?i] by blast
  then show ?case
  proof cases
    case U
    let ?ts = "split_node t ?i"
    let ?c = "child ?i False"
    have us: "untouched t ?ts ?i" by (rule untouched_split[OF i0 cT])
    have sts: "get_index_status ?ts ?i = NODE_SPLIT" "get_index_status ?ts ?c = NODE_UNUSED"
      "get_index_status ?ts (child ?i True) = NODE_UNUSED"
      using split_node_status(1-3)[OF i0 cT] by (simp_all add: child_def)
    have iTs: "in_tree ?ts ?i" using iT by simp
    have absc: "abs_tree ?ts ?c n' = Free" using sts(2) by (simp add: abs_free_iff)
    from IH[of ?ts False] Suc.prems(1) absc alloc_bt_Free[of m]
    obtain t1 p where d: "descend_free ?ts ?c m = Some (t1, p)"
      by (cases "descend_free ?ts ?c m") auto
    obtain t2 cf where f: "fix_full t1 ?c p = (t2, cf)" by (cases "fix_full t1 ?c p")
    from IH[of ?ts False] Suc.prems(1) d f absc
    have A: "alloc_bt m Free = Some (abs_tree t2 ?c n', p)"
      and C: "cf = isfull (abs_tree t2 ?c n')" and U': "untouched ?ts t2 ?c"
      by simp_all
    have SF: "get_index_status ?ts ?i = NODE_SPLIT \<or> get_index_status ?ts ?i = NODE_FULL"
      using sts(1) by simp
    have nf: "\<not> isfull (abs_tree ?ts (child ?i (\<not> False)) n')"
      using sts(3) isfull_abs[of ?ts "child ?i True" n'] by (simp add: full_def NODE_defs)
    from fix_step[OF i0 iTs SF U' C] nf
    have R: "\<not> (cf \<and> full t2 (child ?i True))
        \<and> untouched ?ts t2 ?i
        \<and> abs_tree t2 (child ?i True) n' = abs_tree ?ts (child ?i True) n'
        \<and> get_index_status t2 ?i = NODE_SPLIT"
      using sts(1) by (auto split: if_splits)
    have "abs_tree ?ts (child ?i True) n' = Free" using sts(3) by (simp add: abs_free_iff)
    with R have "abs_tree t2 ?i n = Split (abs_tree t2 ?c n') Free"
      unfolding n by (simp add: NODE_defs)
    moreover have "untouched t t2 ?i" using untouched_trans[OF us] R by simp
    ultimately show ?thesis
      using U d f R A by (simp add: abs_free_iff n)
  next
    case X
    then have "abs_tree t ?i n = Used \<or> (\<exists>l r. abs_tree t ?i n = Full l r)"
      unfolding n by (auto simp: NODE_defs)
    with X show ?thesis by (auto simp: NODE_defs)
  next
    case S
    have SF: "get_index_status t ?i = NODE_SPLIT \<or> get_index_status t ?i = NODE_FULL"
      using S by simp
    have ab: "abs_tree t ?i n = Split (abs_tree t (child ?i False) n') (abs_tree t (child ?i True) n')"
      using S unfolding n by (simp add: NODE_defs)
    have build: "alloc_bt m (abs_tree t (child ?i b) n') = Some (abs_tree t2' (child ?i b) n', p)
        \<Longrightarrow> cf' = isfull (abs_tree t2' (child ?i b) n')
        \<Longrightarrow> untouched t t2' (child ?i b)
        \<Longrightarrow> fix_full t1 (child ?i b) p = (t2', cf')
        \<Longrightarrow> (case fix_full t1 ?i (b # p) of
                (t2, cf) \<Rightarrow>
                  abs_tree t2 ?i n = (if b then mk (abs_tree t (child ?i False) n') (abs_tree t2' (child ?i True) n')
                                      else mk (abs_tree t2' (child ?i False) n') (abs_tree t (child ?i True) n'))
                  \<and> cf = isfull (abs_tree t2 ?i n)
                  \<and> untouched t t2 ?i)" for b t1 t2' cf' p
    proof -
      assume A: "alloc_bt m (abs_tree t (child ?i b) n') = Some (abs_tree t2' (child ?i b) n', p)"
        and C: "cf' = isfull (abs_tree t2' (child ?i b) n')"
        and U': "untouched t t2' (child ?i b)"
        and f: "fix_full t1 (child ?i b) p = (t2', cf')"
      obtain t2 cf where e: "(if cf' \<and> full t2' (child ?i (\<not> b)) then (set_index_status t2' ?i NODE_FULL, True)
               else (t2', False)) = (t2, cf)" by fastforce
      from fix_step[OF i0 iT SF U' C] e
      have R: "untouched t t2 ?i"
        "abs_tree t2 (child ?i b) n' = abs_tree t2' (child ?i b) n'"
        "abs_tree t2 (child ?i (\<not> b)) n' = abs_tree t (child ?i (\<not> b)) n'"
        "if cf then get_index_status t2 ?i = NODE_FULL else get_index_status t2 ?i = get_index_status t ?i"
        "cf = (isfull (abs_tree t2' (child ?i b) n') \<and> isfull (abs_tree t (child ?i (\<not> b)) n'))"
        by simp_all
      have "abs_tree t2 ?i n = (if cf then Full (abs_tree t2 (child ?i False) n') (abs_tree t2 (child ?i True) n')
                                else Split (abs_tree t2 (child ?i False) n') (abs_tree t2 (child ?i True) n'))"
        using R(4) S unfolding n by (simp add: NODE_defs)
      then have "abs_tree t2 ?i n = (if b then mk (abs_tree t (child ?i False) n') (abs_tree t2' (child ?i True) n')
                                      else mk (abs_tree t2' (child ?i False) n') (abs_tree t (child ?i True) n'))
            \<and> cf = isfull (abs_tree t2 ?i n)"
        using R(2,3,5) by (cases b) (auto simp: mk_def)
      with R(1) show ?thesis using f e by simp
    qed
    show ?thesis
    proof (cases "descend_free t (child ?i False) m")
      case (Some a)
      obtain t1 p where a: "a = (t1, p)" by (cases a)
      obtain t2' cf' where f: "fix_full t1 (child ?i False) p = (t2', cf')"
        by (cases "fix_full t1 (child ?i False) p")
      from IH[OF Suc.prems(1), of False] Some a f
      have A: "alloc_bt m (abs_tree t (child ?i False) n') = Some (abs_tree t2' (child ?i False) n', p)"
        and C: "cf' = isfull (abs_tree t2' (child ?i False) n')"
        and U': "untouched t t2' (child ?i False)" by simp_all
      from build[OF A C U' f] show ?thesis
        using S Some a A ab by (auto simp: NODE_defs split: prod.splits)
    next
      case None
      with IH[OF Suc.prems(1), of False]
      have L: "alloc_bt m (abs_tree t (child ?i False) n') = None" by simp
      show ?thesis
      proof (cases "descend_free t (child ?i True) m")
        case None': None
        with IH[OF Suc.prems(1), of True]
        have "alloc_bt m (abs_tree t (child ?i True) n') = None" by simp
        with L None None' S ab show ?thesis by (simp add: NODE_defs)
      next
        case (Some a)
        obtain t1 p where a: "a = (t1, p)" by (cases a)
        obtain t2' cf' where f: "fix_full t1 (child ?i True) p = (t2', cf')"
          by (cases "fix_full t1 (child ?i True) p")
        from IH[OF Suc.prems(1), of True] Some a f
        have A: "alloc_bt m (abs_tree t (child ?i True) n') = Some (abs_tree t2' (child ?i True) n', p)"
          and C: "cf' = isfull (abs_tree t2' (child ?i True) n')"
          and U': "untouched t t2' (child ?i True)" by simp_all
        from build[OF A C U' f] show ?thesis
          using S None Some a A L ab by (auto simp: NODE_defs split: prod.splits)
      qed
    qed
  qed
qed

subsection \<open>Well-formed trees and the search result\<close>

fun wf :: "bt \<Rightarrow> bool" where
  "wf Free = True"
| "wf Used = True"
| "wf Junk = False"
| "wf (Split l r) = (wf l \<and> wf r \<and> \<not> (isfull l \<and> isfull r) \<and> \<not> (l = Free \<and> r = Free))"
| "wf (Full l r) = (wf l \<and> wf r \<and> isfull l \<and> isfull r)"

lemma wf_mk: "wf l \<Longrightarrow> wf r \<Longrightarrow> \<not> (l = Free \<and> r = Free) \<Longrightarrow> wf (mk l r)"
  by (simp add: mk_def)

lemma alloc_bt_not_Free: "alloc_bt m b = Some (b', p) \<Longrightarrow> b' \<noteq> Free"
  by (induction m b arbitrary: b' p rule: alloc_bt.induct)
     (auto simp: mk_def split: if_splits option.splits)

lemma alloc_bt_length: "alloc_bt m b = Some (b', p) \<Longrightarrow> length p = m"
  by (induction m b arbitrary: b' p rule: alloc_bt.induct)
     (auto split: if_splits option.splits)

lemma wf_alloc_bt: "wf b \<Longrightarrow> alloc_bt m b = Some (b', p) \<Longrightarrow> wf b'"
proof (induction m b arbitrary: b' p rule: alloc_bt.induct)
  case (1 b)
  then show ?case by (auto split: if_splits)
next
  case (2 m)
  then obtain l q where l: "alloc_bt m Free = Some (l, q)" "b' = Split l Free" by auto
  with 2 have "wf l" by simp
  moreover have "l \<noteq> Free" using alloc_bt_not_Free[OF l(1)] .
  ultimately show ?case using l(2) by simp
next
  case (3 m l r)
  show ?case
  proof (cases "alloc_bt m l")
    case (Some a)
    obtain l' q where a: "a = (l', q)" by (cases a)
    with 3 Some have "wf l'" "b' = mk l' r" by auto
    moreover have "l' \<noteq> Free" using alloc_bt_not_Free Some a by blast
    ultimately show ?thesis using 3(3) by (simp add: wf_mk)
  next
    case None
    with 3(4) obtain r' q where r: "alloc_bt m r = Some (r', q)" "b' = mk l r'" by auto
    with 3 None have "wf r'" by auto
    moreover have "r' \<noteq> Free" using alloc_bt_not_Free r(1) by blast
    ultimately show ?thesis using 3(3) r(2) by (simp add: wf_mk)
  qed
qed simp_all

lemma found_path:
  assumes "in_tree t1 (walk 0 p + 1)"
  shows "found t1 (walk 0 p) lv = Ret (fst (fix_full t1 0 p), Some (walk 0 p, lv))"
  unfolding found_def using mark_parent_path[OF assms] by simp

theorem alloc_search_abs:
  assumes "room t D" "L \<le> D"
  shows "(alloc_bt L (abs_tree t 0 D) = None
          \<and> alloc_search t (2 ^ (D - L)) 0 0 (2 ^ D) = Ret (t, None))
       \<or> (\<exists>t2 p. alloc_bt L (abs_tree t 0 D) = Some (abs_tree t2 0 D, p)
             \<and> alloc_search t (2 ^ (D - L)) 0 0 (2 ^ D) = Ret (t2, Some (walk 0 p, int L))
             \<and> length t2 = length t)"
proof (cases "descend_free t 0 L")
  case None
  with alloc_refines[OF assms(1), of "[]" D L] assms(2)
  have "alloc_bt L (abs_tree t 0 D) = None" by simp
  with None alloc_search_root[OF assms] show ?thesis by simp
next
  case (Some a)
  obtain t1 p where a: "a = (t1, p)" by (cases a)
  obtain t2 cf where f: "fix_full t1 0 p = (t2, cf)" by (cases "fix_full t1 0 p")
  from alloc_refines[OF assms(1), of "[]" D L] assms(2) Some a f
  have A: "alloc_bt L (abs_tree t 0 D) = Some (abs_tree t2 0 D, p)"
    and U: "untouched t t2 0" by simp_all
  have len: "length p = L" using alloc_bt_length[OF A] .
  have l2: "length t2 = length t" using U by (simp add: untouched_def)
  have "length t1 = length t2" using length_fix_full[of t1 0 p] f by simp
  then have "room t1 D" using assms(1) l2 by (simp add: room_def)
  then have "in_tree t1 (walk 0 p + 1)" using node_in_tree(2)[of t1 D p] len assms(2) by simp
  from found_path[OF this] f
  have "found t1 (walk 0 p) (int L) = Ret (t2, Some (walk 0 p, int L))" by simp
  with alloc_search_root[OF assms] Some a A l2 show ?thesis by simp
qed

subsection \<open>Sizes that match no level\<close>

definition fits :: "u8 list \<Rightarrow> nat \<Rightarrow> bool" where
  "fits t D \<longleftrightarrow> 4 * int (length t) = 2 ^ (D + 1)"

lemma fits_room: "fits t D \<Longrightarrow> room t D"
  by (simp add: fits_def room_def)

lemma fits_set [simp]: "fits (set_index_status t i s) D = fits t D"
  by (simp add: fits_def)

lemma fits_split [simp]: "fits (split_node t i) D = fits t D"
  by (simp add: split_node_def)

lemma leaf_children_outside:
  assumes "fits t D" "length q = D"
  shows "\<not> in_tree t (walk 0 q * 2 + 2)"
proof -
  have "2 ^ D \<le> walk 0 q + 1" using walk_bounds[of q] assms(2) by simp
  then have "(2::int) ^ (D + 1) \<le> walk 0 q * 2 + 2" by simp
  with assms(1) show ?thesis unfolding in_tree_iff fits_def by simp
qed

lemma mismatch_unused:
  assumes "fits t D" "length q + n = D" "\<forall>k\<le>n. sz \<noteq> 2 ^ k"
    and "get_index_status t (walk 0 q) = NODE_UNUSED"
  shows "alloc_search t sz (walk 0 q) (int (length q)) (2 ^ n) = Undefined"
  using assms
proof (induction n arbitrary: t q)
  case 0
  have i0: "0 \<le> walk 0 q" and iT: "in_tree t (walk 0 q)"
    using node_in_tree[OF fits_room[OF 0(1)], of q] 0(2) by simp_all
  have "\<not> in_tree t (walk 0 q * 2 + 2)" using leaf_children_outside[OF 0(1)] 0(2) by simp
  moreover have "sz \<noteq> 1" using 0(3) by simp
  ultimately show ?case using 0(4)
    by (subst alloc_search_cases[OF i0 iT]) simp
next
  case (Suc n)
  let ?i = "walk 0 q"
  from Suc.prems have lt: "length q < D" by simp
  have i0: "0 \<le> ?i" and iT: "in_tree t ?i"
    using node_in_tree[OF fits_room[OF Suc.prems(1)], of q] lt by simp_all
  have cT: "in_tree t (?i * 2 + 2)" using child_in_tree(3)[OF fits_room[OF Suc.prems(1)] lt] .
  have ne: "sz \<noteq> 2 ^ Suc n" using Suc.prems(3) by blast
  have "get_index_status (split_node t ?i) (walk 0 (q @ [False])) = NODE_UNUSED"
    using split_node_status(2)[OF i0 cT] by (simp add: walk_snoc child_def)
  moreover have "\<forall>k\<le>n. sz \<noteq> 2 ^ k" using Suc.prems(3) by simp
  moreover have "length (q @ [False]) + n = D" using Suc.prems(2) by simp
  ultimately have "alloc_search (split_node t ?i) sz (walk 0 (q @ [False])) (int (length (q @ [False]))) (2 ^ n) = Undefined"
    using Suc.prems(1) by (intro Suc.IH) simp_all
  moreover have "int (length (q @ [False])) = int (length q) + 1" by simp
  ultimately have "alloc_search (split_node t ?i) sz (?i * 2 + 1) (int (length q) + 1) (2 ^ n) = Undefined"
    unfolding walk_snoc child_simps by (simp only:)
  then show ?case using ne cT Suc.prems(4)
    by (subst alloc_search_cases[OF i0 iT]) simp
qed

lemma wf_abs_cases:
  assumes "wf (abs_tree t i n)"
  obtains (leaf) "get_index_status t i = NODE_UNUSED \<or> get_index_status t i = NODE_USED"
  | (inner) n' where "n = Suc n'"
      "get_index_status t i = NODE_SPLIT \<or> get_index_status t i = NODE_FULL"
      "wf (abs_tree t (child i False) n')" "wf (abs_tree t (child i True) n')"
proof (cases "get_index_status t i = NODE_UNUSED \<or> get_index_status t i = NODE_USED")
  case True then show thesis by (rule leaf)
next
  case False
  with status_cases[of t i]
  have sf: "get_index_status t i = NODE_SPLIT \<or> get_index_status t i = NODE_FULL" by blast
  show thesis
  proof (cases n)
    case 0
    with assms False sf show thesis by (auto simp: NODE_defs)
  next
    case (Suc n')
    with assms False sf show thesis
      by (intro inner[of n']) (auto simp: NODE_defs split: if_splits)
  qed
qed

lemma mismatch_search:
  assumes "fits t D" "length q + n = D" "\<forall>k\<le>n. sz \<noteq> 2 ^ k" "wf (abs_tree t (walk 0 q) n)"
  shows "alloc_search t sz (walk 0 q) (int (length q)) (2 ^ n) = Undefined
       \<or> alloc_search t sz (walk 0 q) (int (length q)) (2 ^ n)
         = alloc_next t sz (walk 0 q) (int (length q)) (2 ^ n)"
  using assms
proof (induction n arbitrary: q)
  case 0
  let ?i = "walk 0 q"
  have i0: "0 \<le> ?i" and iT: "in_tree t ?i"
    using node_in_tree[OF fits_room[OF 0(1)], of q] 0(2) by simp_all
  have ne: "sz \<noteq> 1" using 0(3) by simp
  from 0(4) show ?case
  proof (cases rule: wf_abs_cases)
    case leaf
    then show ?thesis
    proof
      assume "get_index_status t ?i = NODE_UNUSED"
      from mismatch_unused[OF 0(1,2,3) this] show ?thesis by simp
    next
      assume "get_index_status t ?i = NODE_USED"
      then show ?thesis using ne
        by (subst (2) alloc_search_cases[OF i0 iT]) (simp add: NODE_defs)
    qed
  next
    case (inner n')
    then show ?thesis by simp
  qed
next
  case (Suc n)
  let ?i = "walk 0 q"
  from Suc.prems have lt: "length q < D" by simp
  have i0: "0 \<le> ?i" and iT: "in_tree t ?i"
    using node_in_tree[OF fits_room[OF Suc.prems(1)], of q] lt by simp_all
  have ne: "sz \<noteq> 2 ^ Suc n" using Suc.prems(3) by blast
  have nk: "\<forall>k\<le>n. sz \<noteq> 2 ^ k" using Suc.prems(3) by simp
  have half: "(2::int) ^ Suc n div 2 = 2 ^ n" "(2::int) ^ n * 2 = 2 ^ Suc n" by simp_all
  from Suc.prems(4) show ?case
  proof (cases rule: wf_abs_cases)
    case leaf
    then show ?thesis
    proof
      assume "get_index_status t ?i = NODE_UNUSED"
      from mismatch_unused[OF Suc.prems(1,2,3) this] show ?thesis by simp
    next
      assume "get_index_status t ?i = NODE_USED"
      then show ?thesis using ne
        by (subst (2) alloc_search_cases[OF i0 iT]) (simp add: NODE_defs)
    qed
  next
    case (inner n')
    then have n': "n' = n" by simp
    have IH: "alloc_search t sz (child ?i b) (int (length q) + 1) (2 ^ n) = Undefined
       \<or> alloc_search t sz (child ?i b) (int (length q) + 1) (2 ^ n)
         = alloc_next t sz (child ?i b) (int (length q) + 1) (2 ^ n)" for b
    proof -
      have "length (q @ [b]) + n = D" using Suc.prems(2) by simp
      moreover have "wf (abs_tree t (walk 0 (q @ [b])) n)"
        using inner(3,4) n' by (cases b) (simp_all add: walk_snoc)
      moreover have e: "int (length (q @ [b])) = int (length q) + 1" by simp
      ultimately show ?thesis
        using Suc.IH[of "q @ [b]", OF Suc.prems(1) _ nk] unfolding walk_snoc e by blast
    qed
    from inner(2) show ?thesis
    proof
      assume F: "get_index_status t ?i = NODE_FULL"
      then show ?thesis using ne
        by (subst (2) alloc_search_cases[OF i0 iT]) (simp add: NODE_defs)
    next
      assume S: "get_index_status t ?i = NODE_SPLIT"
      have step: "alloc_search t sz ?i (int (length q)) (2 ^ Suc n)
          = alloc_search t sz (child ?i False) (int (length q) + 1) (2 ^ n)"
        using S ne by (subst alloc_search_cases[OF i0 iT]) (simp add: NODE_defs child_def)
      from IH[of False] show ?thesis
      proof
        assume "alloc_search t sz (child ?i False) (int (length q) + 1) (2 ^ n) = Undefined"
        with step show ?thesis by simp
      next
        assume "alloc_search t sz (child ?i False) (int (length q) + 1) (2 ^ n)
           = alloc_next t sz (child ?i False) (int (length q) + 1) (2 ^ n)"
        with step have s2: "alloc_search t sz ?i (int (length q)) (2 ^ Suc n)
           = alloc_search t sz (child ?i True) (int (length q) + 1) (2 ^ n)"
          by (simp add: alloc_next_left_child)
        from IH[of True] show ?thesis
        proof
          assume "alloc_search t sz (child ?i True) (int (length q) + 1) (2 ^ n) = Undefined"
          with s2 show ?thesis by simp
        next
          assume "alloc_search t sz (child ?i True) (int (length q) + 1) (2 ^ n)
             = alloc_next t sz (child ?i True) (int (length q) + 1) (2 ^ n)"
          with s2 show ?thesis
            using alloc_next_right_child[OF i0 half(2), of t sz "int (length q)"] by simp
        qed
      qed
    qed
  qed
qed

lemma mismatch_root:
  assumes "fits t D" "\<forall>k\<le>D. sz \<noteq> 2 ^ k" "wf (abs_tree t 0 D)"
  shows "alloc_search t sz 0 0 (2 ^ D) = Undefined \<or> alloc_search t sz 0 0 (2 ^ D) = Ret (t, None)"
proof -
  have "alloc_next t sz 0 0 len = Ret (t, None)" for len
    unfolding alloc_next_def by (subst backtrack_unfold) (simp add: parent_of_def)
  then show ?thesis
    using mismatch_search[OF assms(1), of "[]" D sz] assms(2,3) by simp
qed

subsection \<open>Release: merging along the path\<close>

datatype mode = Climbing | Demoting | Stopped

definition demote_step :: "u8 list \<Rightarrow> int \<Rightarrow> u8 list \<times> mode" where
  "demote_step t i =
     (if get_index_status t i = NODE_FULL then (set_index_status t i NODE_SPLIT, Demoting)
      else (t, Stopped))"

fun merge_path :: "u8 list \<Rightarrow> int \<Rightarrow> bool list \<Rightarrow> u8 list \<times> mode" where
  "merge_path t i [] = (t, Climbing)"
| "merge_path t i (b # p) =
     (case merge_path t (child i b) p of
        (t', Climbing) \<Rightarrow>
          if get_index_status t' (child i (\<not> b)) \<noteq> NODE_UNUSED
          then demote_step (set_index_status t' (child i b) NODE_UNUSED) i
          else (t', Climbing)
      | (t', Demoting) \<Rightarrow> demote_step t' i
      | (t', Stopped) \<Rightarrow> (t', Stopped))"

definition after_merge :: "u8 list \<times> mode \<Rightarrow> int \<Rightarrow> u8 list cres" where
  "after_merge x i =
     (case x of
        (t', Climbing) \<Rightarrow> combine t' i
      | (t', Demoting) \<Rightarrow> combine_demote t' i
      | (t', Stopped) \<Rightarrow> Ret t')"

lemma length_demote_step [simp]: "length (fst (demote_step t i)) = length t"
  by (simp add: demote_step_def)

lemma length_merge_path [simp]: "length (fst (merge_path t i p)) = length t"
proof (induction p arbitrary: i)
  case Nil
  show ?case by simp
next
  case (Cons b p)
  obtain t' m where f: "merge_path t (child i b) p = (t', m)" by (cases "merge_path t (child i b) p")
  from Cons[of "child i b"] f have "length t' = length t" by simp
  then show ?case using f by (cases m) (simp_all add: demote_step_def)
qed

lemma combine_demote_child:
  assumes "0 \<le> i" "in_tree t i"
  shows "combine_demote t (child i b) = after_merge (demote_step t i) i"
  using assms
  by (subst combine_demote_unfold)
     (simp add: parent_of_child demote_step_def after_merge_def)

lemma combine_child:
  assumes "0 \<le> i" "in_tree t (child i True)"
  shows "combine t (child i b) =
     (if get_index_status t (child i (\<not> b)) \<noteq> NODE_UNUSED
      then after_merge (demote_step (set_index_status t (child i b) NODE_UNUSED) i) i
      else combine t i)"
proof -
  from assms have c: "0 \<le> child i (\<not> b)" "in_tree t (child i (\<not> b))" "in_tree t i"
    "in_tree t (child i b)" "0 \<le> child i b"
    unfolding in_tree_iff child_def by (cases b; simp)+
  have "combine_demote (set_index_status t (child i b) NODE_UNUSED) (child i b)
      = after_merge (demote_step (set_index_status t (child i b) NODE_UNUSED) i) i"
    using c(3) by (intro combine_demote_child[OF assms(1)]) simp
  then show ?thesis using c
    by (subst combine_unfold) (simp add: buddy_of_child parent_of_child)
qed

lemma combine_merge_path:
  assumes "0 \<le> i" "in_tree t (walk i p + 1)"
  shows "combine t (walk i p) = after_merge (merge_path t i p) i"
  using assms
proof (induction p arbitrary: i)
  case Nil
  then show ?case by (simp add: after_merge_def)
next
  case (Cons b p)
  let ?c = "child i b"
  have c0: "0 \<le> ?c" using child_gt[OF Cons.prems(1), of b] Cons.prems(1) by simp
  obtain t' m where f: "merge_path t ?c p = (t', m)" by (cases "merge_path t ?c p")
  have len: "length t' = length t" using length_merge_path[of t ?c p] f by simp
  have IH: "combine t (walk ?c p) = after_merge (t', m) ?c"
    using Cons.IH[OF c0] Cons.prems(2) f by simp
  have "i * 2 + 1 \<le> ?c" unfolding child_def by simp
  with walk_ge[OF c0, of p] have "i * 2 + 2 \<le> walk ?c p + 1" by linarith
  moreover from Cons.prems(2) have "walk ?c p + 1 < 4 * int (length t)"
    unfolding in_tree_iff by simp
  ultimately have cT: "in_tree t' (child i True)" and iT: "in_tree t' i"
    using Cons.prems(1) unfolding in_tree_iff len child_simps by linarith+
  show ?case
  proof (cases m)
    case Climbing
    with IH f combine_child[OF Cons.prems(1) cT, of b] show ?thesis
      by (simp add: after_merge_def)
  next
    case Demoting
    with IH f combine_demote_child[OF Cons.prems(1) iT, of b] show ?thesis
      by (simp add: after_merge_def)
  next
    case Stopped
    with IH f show ?thesis by (simp add: after_merge_def)
  qed
qed

definition finish_merge :: "u8 list \<times> mode \<Rightarrow> u8 list" where
  "finish_merge x = (case x of (t', Climbing) \<Rightarrow> set_index_status t' 0 NODE_UNUSED | (t', _) \<Rightarrow> t')"

lemma combine_path:
  assumes "in_tree t (walk 0 p + 1)"
  shows "combine t (walk 0 p) = Ret (finish_merge (merge_path t 0 p))"
proof -
  obtain t' m where f: "merge_path t 0 p = (t', m)" by (cases "merge_path t 0 p")
  have len: "length t' = length t" using length_merge_path[of t 0 p] f by simp
  from assms have "0 < length t" unfolding in_tree_iff by linarith
  then have iT: "in_tree t' 0" unfolding in_tree_iff len by simp
  have d: "combine_demote x 0 = Ret x" for x
    by (subst combine_demote_unfold) (simp add: parent_of_def)
  have c: "combine t' 0 = Ret (set_index_status t' 0 NODE_UNUSED)"
    using iT by (subst combine_unfold) (simp add: buddy_of_def d)
  show ?thesis
    using combine_merge_path[OF _ assms] f c d
    by (cases m) (simp_all add: after_merge_def finish_merge_def)
qed

definition join :: "bt \<Rightarrow> bt \<Rightarrow> bt" where
  "join l r = (if l = Free \<and> r = Free then Free else Split l r)"

fun free_path :: "bool list \<Rightarrow> bt \<Rightarrow> bt" where
  "free_path [] b = Free"
| "free_path (c # p) (Split l r) = (if c then join l (free_path p r) else join (free_path p l) r)"
| "free_path (c # p) (Full l r) = (if c then join l (free_path p r) else join (free_path p l) r)"
| "free_path (c # p) b = Junk"

fun used_at :: "bool list \<Rightarrow> bt \<Rightarrow> bool" where
  "used_at [] b = (b = Used)"
| "used_at (c # p) (Split l r) = (if c then used_at p r else used_at p l)"
| "used_at (c # p) (Full l r) = (if c then used_at p r else used_at p l)"
| "used_at (c # p) b = False"

lemma used_at_Junk [simp]: "\<not> used_at p Junk"
  by (cases p) simp_all

lemma abs_inner:
  assumes "get_index_status t i = NODE_SPLIT \<or> get_index_status t i = NODE_FULL"
  shows "abs_tree t i (Suc n) =
     (if get_index_status t i = NODE_FULL
      then Full (abs_tree t (child i False) n) (abs_tree t (child i True) n)
      else Split (abs_tree t (child i False) n) (abs_tree t (child i True) n))"
  using assms by (auto simp: NODE_defs)

lemma used_at_Cons_abs:
  assumes "used_at (b # p) (abs_tree t i n)"
  obtains n' where "n = Suc n'"
    "get_index_status t i = NODE_SPLIT \<or> get_index_status t i = NODE_FULL"
    "used_at p (abs_tree t (child i b) n')"
proof (cases n)
  case 0
  with assms show thesis by (auto split: if_splits)
next
  case (Suc n')
  show thesis
  proof (rule that[OF Suc])
    show sf: "get_index_status t i = NODE_SPLIT \<or> get_index_status t i = NODE_FULL"
      using assms status_cases[of t i] unfolding Suc by (auto split: if_splits)
    show "used_at p (abs_tree t (child i b) n')"
      using assms unfolding Suc abs_inner[OF sf] by (cases b) (auto split: if_splits)
  qed
qed

lemma free_path_Cons_abs:
  assumes "get_index_status t i = NODE_SPLIT \<or> get_index_status t i = NODE_FULL"
  shows "free_path (b # p) (abs_tree t i (Suc n)) =
     (if b then join (abs_tree t (child i False) n) (free_path p (abs_tree t (child i True) n))
      else join (free_path p (abs_tree t (child i False) n)) (abs_tree t (child i True) n))"
  unfolding abs_inner[OF assms] by simp

definition merged :: "u8 list \<Rightarrow> int \<Rightarrow> nat \<Rightarrow> bool list \<Rightarrow> u8 list \<times> mode \<Rightarrow> bool" where
  "merged t i n p x \<longleftrightarrow>
     (case x of (t', m) \<Rightarrow>
        untouched t t' i
        \<and> (m = Climbing \<longrightarrow> t' = t \<and> free_path p (abs_tree t i n) = Free)
        \<and> (m \<noteq> Climbing \<longrightarrow>
              abs_tree t' i n = free_path p (abs_tree t i n)
              \<and> free_path p (abs_tree t i n) \<noteq> Free
              \<and> (get_index_status t i = NODE_SPLIT \<or> get_index_status t i = NODE_FULL)
              \<and> ((m = Demoting) = (get_index_status t i = NODE_FULL))))"

lemma demote_step_abs:
  assumes i0: "0 \<le> i" and iT: "in_tree t1 i"
    and sf: "get_index_status t1 i = NODE_SPLIT \<or> get_index_status t1 i = NODE_FULL"
    and x: "demote_step t1 i = (t2, m)"
  shows "untouched t1 t2 i"
    and "abs_tree t2 i (Suc n) = Split (abs_tree t1 (child i False) n) (abs_tree t1 (child i True) n)"
    and "m \<noteq> Climbing" and "(m = Demoting) = (get_index_status t1 i = NODE_FULL)"
proof -
  show "m \<noteq> Climbing" "(m = Demoting) = (get_index_status t1 i = NODE_FULL)"
    using x by (auto simp: demote_step_def split: if_splits)
  show "untouched t1 t2 i"
    using x untouched_set[OF untouched_refl iT, of NODE_SPLIT]
    by (auto simp: demote_step_def untouched_refl split: if_splits)
  have s: "get_index_status t2 i = NODE_SPLIT"
    using x sf st_set_same[OF iT, of NODE_SPLIT]
    by (auto simp: demote_step_def split: if_splits)
  have "abs_tree t2 (child i c) n = abs_tree t1 (child i c) n" for c
    using x abs_set_parent[OF iT _ i0, of NODE_SPLIT c n]
    by (auto simp: demote_step_def split: if_splits)
  then show "abs_tree t2 i (Suc n) = Split (abs_tree t1 (child i False) n) (abs_tree t1 (child i True) n)"
    using s by (simp add: NODE_defs)
qed

lemma wf_inner_not_full_child:
  assumes "wf (abs_tree t i (Suc n))"
    and "get_index_status t i = NODE_FULL"
  shows "full t (child i b)"
proof -
  from assms have "isfull (abs_tree t (child i False) n) \<and> isfull (abs_tree t (child i True) n)"
    by (simp add: NODE_defs)
  then show ?thesis using isfull_abs by (cases b) auto
qed

lemma wf_child:
  assumes "wf (abs_tree t i (Suc n))"
    and "get_index_status t i = NODE_SPLIT \<or> get_index_status t i = NODE_FULL"
  shows "wf (abs_tree t (child i b) n)"
  using assms unfolding abs_inner[OF assms(2)] by (cases b) (auto split: if_splits)

lemma merge_refines:
  assumes "room t D" "length q + n \<le> D"
    and "wf (abs_tree t (walk 0 q) n)" "used_at p (abs_tree t (walk 0 q) n)"
  shows "merged t (walk 0 q) n p (merge_path t (walk 0 q) p)"
  using assms
proof (induction p arbitrary: q n)
  case Nil
  then show ?case by (simp add: merged_def untouched_refl)
next
  case (Cons b p)
  let ?i = "walk 0 q"
  let ?c = "child ?i b"
  let ?s = "child ?i (\<not> b)"
  from Cons.prems(4) obtain n' where n: "n = Suc n'"
    and sf: "get_index_status t ?i = NODE_SPLIT \<or> get_index_status t ?i = NODE_FULL"
    and uc: "used_at p (abs_tree t ?c n')"
    by (rule used_at_Cons_abs)
  from Cons.prems n have lt: "length q < D" by simp
  have i0: "0 \<le> ?i" and iT: "in_tree t ?i"
    using node_in_tree[OF Cons.prems(1), of q] lt by simp_all
  have cT: "in_tree t ?c" using child_in_tree(1)[OF Cons.prems(1) lt] .
  have wfc: "wf (abs_tree t ?c n')" using wf_child[OF Cons.prems(3)[unfolded n] sf] .
  have IH: "merged t ?c n' p (merge_path t ?c p)"
  proof -
    have "length (q @ [b]) + n' \<le> D" using Cons.prems(2) n by simp
    from Cons.IH[OF Cons.prems(1) this] wfc uc show ?thesis by (simp add: walk_snoc)
  qed
  obtain t' m' where f: "merge_path t ?c p = (t', m')" by (cases "merge_path t ?c p")
  from IH f have U: "untouched t t' ?c"
    and CL: "m' = Climbing \<Longrightarrow> t' = t \<and> free_path p (abs_tree t ?c n') = Free"
    and NC: "m' \<noteq> Climbing \<Longrightarrow> abs_tree t' ?c n' = free_path p (abs_tree t ?c n')
              \<and> free_path p (abs_tree t ?c n') \<noteq> Free
              \<and> (get_index_status t ?c = NODE_SPLIT \<or> get_index_status t ?c = NODE_FULL)
              \<and> ((m' = Demoting) = (get_index_status t ?c = NODE_FULL))"
    by (simp_all add: merged_def)
  note u = untouched_child[OF U i0]
  have fp: "free_path (b # p) (abs_tree t ?i n) =
     (if b then join (abs_tree t ?s n') (free_path p (abs_tree t ?c n'))
      else join (free_path p (abs_tree t ?c n')) (abs_tree t ?s n'))"
    unfolding n free_path_Cons_abs[OF sf] by simp
  have via_demote: "merged t ?i n (b # p) (demote_step t1 ?i)"
    if t1: "untouched t t1 ?c" "abs_tree t1 ?c n' = free_path p (abs_tree t ?c n')"
      and nf: "free_path p (abs_tree t ?c n') \<noteq> Free \<or> abs_tree t ?s n' \<noteq> Free" for t1
  proof -
    note u1 = untouched_child[OF t1(1) i0]
    have iT1: "in_tree t1 ?i" using iT untouched_in_tree[OF t1(1)] by simp
    have sf1: "get_index_status t1 ?i = NODE_SPLIT \<or> get_index_status t1 ?i = NODE_FULL"
      using sf u1(2) by simp
    obtain t2 m where x: "demote_step t1 ?i = (t2, m)" by (cases "demote_step t1 ?i")
    note d = demote_step_abs[OF i0 iT1 sf1 x]
    have "abs_tree t2 ?i n = (if b then Split (abs_tree t ?s n') (free_path p (abs_tree t ?c n'))
        else Split (free_path p (abs_tree t ?c n')) (abs_tree t ?s n'))"
      unfolding n d(2) using t1(2) u1(3)[of n'] by (cases b) simp_all
    then have "abs_tree t2 ?i n = free_path (b # p) (abs_tree t ?i n)"
      "free_path (b # p) (abs_tree t ?i n) \<noteq> Free"
      unfolding fp using nf by (cases b; simp add: join_def; blast)+
    moreover have "untouched t t2 ?i" using untouched_trans[OF u1(1) d(1)] .
    ultimately show ?thesis
      using x d(3,4) sf u1(2) by (simp add: merged_def)
  qed
  show ?case
  proof (cases m')
    case Climbing
    with CL have t': "t' = t" and fc: "free_path p (abs_tree t ?c n') = Free" by simp_all
    show ?thesis
    proof (cases "get_index_status t ?s \<noteq> NODE_UNUSED")
      case True
      let ?t1 = "set_index_status t ?c NODE_UNUSED"
      have "untouched t ?t1 ?c" using untouched_set[OF untouched_refl cT] by simp
      moreover have "abs_tree ?t1 ?c n' = Free"
        using st_set_same[OF cT, of NODE_UNUSED] by (simp add: abs_free_iff)
      moreover have "abs_tree t ?s n' \<noteq> Free" using True by (simp add: abs_free_iff)
      ultimately have "merged t ?i n (b # p) (demote_step ?t1 ?i)"
        using via_demote[of ?t1] fc by simp
      then show ?thesis using f Climbing t' True by simp
    next
      case False
      then have "abs_tree t ?s n' = Free" by (simp add: abs_free_iff)
      then have "free_path (b # p) (abs_tree t ?i n) = Free"
        unfolding fp using fc by (cases b) (simp_all add: join_def)
      then show ?thesis using f Climbing t' False
        by (simp add: merged_def untouched_refl)
    qed
  next
    case Demoting
    with NC have "abs_tree t' ?c n' = free_path p (abs_tree t ?c n')"
      "free_path p (abs_tree t ?c n') \<noteq> Free" by simp_all
    then have "merged t ?i n (b # p) (demote_step t' ?i)"
      using via_demote[of t'] U by simp
    then show ?thesis using f Demoting by simp
  next
    case Stopped
    with NC have a: "abs_tree t' ?c n' = free_path p (abs_tree t ?c n')"
      and nf: "free_path p (abs_tree t ?c n') \<noteq> Free"
      and sc: "get_index_status t ?c = NODE_SPLIT" by auto
    have "\<not> full t ?c" using sc by (simp add: full_def NODE_defs)
    with wf_inner_not_full_child[OF Cons.prems(3)[unfolded n], of b] sf
    have si: "get_index_status t ?i = NODE_SPLIT" by blast
    then have "get_index_status t' ?i = NODE_SPLIT" using u(2) by simp
    then have "abs_tree t' ?i n = Split (abs_tree t' (child ?i False) n') (abs_tree t' (child ?i True) n')"
      unfolding n by (simp add: NODE_defs)
    then have "abs_tree t' ?i n = free_path (b # p) (abs_tree t ?i n)"
      unfolding fp using a nf u(3)[of n'] by (cases b) (simp_all add: join_def)
    moreover have "free_path (b # p) (abs_tree t ?i n) \<noteq> Free"
      unfolding fp using nf by (cases b) (simp_all add: join_def)
    ultimately show ?thesis
      using f Stopped u(1) si by (simp add: merged_def NODE_defs)
  qed
qed

fun locate :: "bt \<Rightarrow> int \<Rightarrow> int \<Rightarrow> int \<Rightarrow> bool list option" where
  "locate Free off left len = None"
| "locate Used off left len = (if off = left then Some [] else None)"
| "locate Junk off left len = None"
| "locate (Split l r) off left len =
     (if off < left + len div 2 then map_option ((#) False) (locate l off left (len div 2))
      else map_option ((#) True) (locate r off (left + len div 2) (len div 2)))"
| "locate (Full l r) off left len =
     (if off < left + len div 2 then map_option ((#) False) (locate l off left (len div 2))
      else map_option ((#) True) (locate r off (left + len div 2) (len div 2)))"

lemma locate_used_at: "locate b off left len = Some p \<Longrightarrow> used_at p b"
  by (induction b off left len arbitrary: p rule: locate.induct) (auto split: if_splits)

lemma used_at_length: "used_at p (abs_tree t i n) \<Longrightarrow> length p \<le> n"
proof (induction p arbitrary: i n)
  case Nil
  show ?case by simp
next
  case (Cons b p)
  from Cons.prems obtain n' where "n = Suc n'" "used_at p (abs_tree t (child i b) n')"
    by (rule used_at_Cons_abs)
  with Cons.IH[of "child i b" n'] show ?case by simp
qed

lemma free_search_locate:
  assumes "room t D" "length q + n \<le> D" "wf (abs_tree t (walk 0 q) n)"
  shows "free_search t off left len (walk 0 q) =
     (case locate (abs_tree t (walk 0 q) n) off left len of
        None \<Rightarrow> Abort
      | Some p \<Rightarrow> combine t (walk (walk 0 q) p))"
  using assms
proof (induction n arbitrary: q left len)
  case 0
  let ?i = "walk 0 q"
  have i0: "0 \<le> ?i" and iT: "in_tree t ?i"
    using node_in_tree[OF 0(1), of q] 0(2) by simp_all
  from 0(3) show ?case
  proof (cases rule: wf_abs_cases)
    case leaf
    then show ?thesis using iT
      by (subst free_search_unfold) (auto simp: NODE_defs)
  next
    case (inner n')
    then show ?thesis by simp
  qed
next
  case (Suc n)
  let ?i = "walk 0 q"
  from Suc.prems have lt: "length q < D" by simp
  have i0: "0 \<le> ?i" and iT: "in_tree t ?i"
    using node_in_tree[OF Suc.prems(1), of q] lt by simp_all
  from Suc.prems(3) show ?case
  proof (cases rule: wf_abs_cases)
    case leaf
    then show ?thesis using iT
      by (subst free_search_unfold) (auto simp: NODE_defs)
  next
    case (inner n')
    then have n': "n' = n" by simp
    have IH: "free_search t off left' len' (child ?i b) =
       (case locate (abs_tree t (child ?i b) n) off left' len' of
          None \<Rightarrow> Abort
        | Some p \<Rightarrow> combine t (walk (child ?i b) p))" for b left' len'
    proof -
      have "length (q @ [b]) + n \<le> D" using Suc.prems(2) by simp
      moreover have "wf (abs_tree t (walk 0 (q @ [b])) n)"
        using inner(3,4) n' by (cases b) (simp_all add: walk_snoc)
      ultimately show ?thesis
        using Suc.IH[OF Suc.prems(1), of "q @ [b]" left' len'] unfolding walk_snoc by simp
    qed
    have step: "free_search t off left len ?i =
        (if off < left + len div 2 then free_search t off left (len div 2) (child ?i False)
         else free_search t off (left + len div 2) (len div 2) (child ?i True))"
      using inner(2) iT
      by (subst free_search_unfold) (auto simp: NODE_defs child_def)
    show ?thesis
      unfolding step IH abs_inner[OF inner(2)]
      by (auto split: option.splits)
  qed
qed

lemma wf_join: "wf l \<Longrightarrow> wf r \<Longrightarrow> \<not> (isfull l \<and> isfull r) \<Longrightarrow> wf (join l r)"
  by (simp add: join_def)

lemma free_path_not_full: "used_at p b \<Longrightarrow> \<not> isfull (free_path p b)"
  by (induction p b rule: free_path.induct) (auto simp: join_def)

lemma wf_free_path: "wf b \<Longrightarrow> used_at p b \<Longrightarrow> wf (free_path p b)"
proof (induction p b rule: free_path.induct)
  case (2 c p l r)
  then show ?case
    using free_path_not_full[of p l] free_path_not_full[of p r]
    by (auto intro!: wf_join split: if_splits)
next
  case (3 c p l r)
  then show ?case
    using free_path_not_full[of p l] free_path_not_full[of p r]
    by (auto intro!: wf_join split: if_splits)
qed simp_all

theorem free_search_abs:
  assumes "room t D" "wf (abs_tree t 0 D)"
  shows "(locate (abs_tree t 0 D) off 0 len = None \<and> free_search t off 0 len 0 = Abort)
       \<or> (\<exists>p t'. locate (abs_tree t 0 D) off 0 len = Some p
             \<and> free_search t off 0 len 0 = Ret t'
             \<and> t' = finish_merge (merge_path t 0 p)
             \<and> abs_tree t' 0 D = free_path p (abs_tree t 0 D)
             \<and> length t' = length t)"
proof (cases "locate (abs_tree t 0 D) off 0 len")
  case None
  with free_search_locate[OF assms(1), of "[]" D off 0 len] assms(2) show ?thesis by simp
next
  case (Some p)
  have ua: "used_at p (abs_tree t 0 D)" using locate_used_at[OF Some] .
  then have "length p \<le> D" by (rule used_at_length)
  then have iT: "in_tree t (walk 0 p + 1)" using node_in_tree(2)[OF assms(1)] by simp
  have iT0: "in_tree t 0" using node_in_tree(1)[OF assms(1), of "[]"] by simp
  obtain t' m where f: "merge_path t 0 p = (t', m)" by (cases "merge_path t 0 p")
  from merge_refines[OF assms(1), of "[]" D p] assms(2) ua f
  have M: "merged t 0 D p (t', m)" by simp
  have len: "length t' = length t" using length_merge_path[of t 0 p] f by simp
  have "abs_tree (finish_merge (t', m)) 0 D = free_path p (abs_tree t 0 D)"
  proof (cases "m = Climbing")
    case True
    with M have "t' = t" "free_path p (abs_tree t 0 D) = Free" by (simp_all add: merged_def)
    then show ?thesis using True st_set_same[OF iT0, of NODE_UNUSED]
      by (simp add: finish_merge_def abs_free_iff)
  next
    case False
    with M have "abs_tree t' 0 D = free_path p (abs_tree t 0 D)" by (simp add: merged_def)
    then show ?thesis using False by (cases m) (simp_all add: finish_merge_def)
  qed
  moreover have "length (finish_merge (t', m)) = length t"
    using len by (cases m) (simp_all add: finish_merge_def)
  moreover have "free_search t off 0 len 0 = Ret (finish_merge (t', m))"
    using free_search_locate[OF assms(1), of "[]" D off 0 len] assms(2) Some
      combine_path[OF iT] f by simp
  ultimately show ?thesis using Some f by simp
qed

section \<open>Pools\<close>

definition pool_ok :: "buddy \<Rightarrow> bool" where
  "pool_ok self \<longleftrightarrow>
     level self < 31 \<and> min_level self < 31
     \<and> fits (tree self) (level self)
     \<and> wf (abs_tree (tree self) 0 (level self))"

lemma buddy_alloc_cases:
  assumes "pool_ok self"
  shows "buddy_alloc self s = Undefined
       \<or> buddy_alloc self s = Ret (self, None)
       \<or> (\<exists>t2 p off. length p \<le> level self
             \<and> request_units self s = 2 ^ (level self - length p)
             \<and> alloc_bt (length p) (abs_tree (tree self) 0 (level self))
                 = Some (abs_tree t2 0 (level self), p)
             \<and> length t2 = length (tree self)
             \<and> index_offset self (walk 0 p) (int (length p)) (int (level self)) = Ret off
             \<and> buddy_alloc self s = Ret (self\<lparr>tree := t2\<rparr>, Some off))"
proof -
  let ?D = "level self" and ?t = "tree self" and ?sz = "request_units self s"
  from assms have ok: "?D < 31" "min_level self < 31" "fits ?t ?D" "wf (abs_tree ?t 0 ?D)"
    by (simp_all add: pool_ok_def)
  have len: "push_bit ?D (1::int) = 2 ^ ?D" by (simp add: push_bit_eq_mult)
  have same: "self\<lparr>tree := ?t\<rparr> = self" by simp
  show ?thesis
  proof (cases "?sz > 2 ^ ?D")
    case True
    then show ?thesis using ok(1,2) by (simp add: buddy_alloc_def len Let_def)
  next
    case False
    show ?thesis
    proof (cases "\<exists>k\<le>?D. ?sz = 2 ^ k")
      case True
      then obtain k where k: "k \<le> ?D" "?sz = 2 ^ k" by blast
      define L where "L = ?D - k"
      with k have L: "L \<le> ?D" "?sz = 2 ^ (?D - L)" by simp_all
      from alloc_search_abs[OF fits_room[OF ok(3)] L(1)]
      show ?thesis
      proof (elim disjE conjE exE)
        assume "alloc_search ?t (2 ^ (?D - L)) 0 0 (2 ^ ?D) = Ret (?t, None)"
        then show ?thesis using ok(1,2) False L(2)
          by (simp add: buddy_alloc_def len Let_def)
      next
        fix t2 p
        assume A: "alloc_bt L (abs_tree ?t 0 ?D) = Some (abs_tree t2 0 ?D, p)"
          and S: "alloc_search ?t (2 ^ (?D - L)) 0 0 (2 ^ ?D) = Ret (t2, Some (walk 0 p, int L))"
          and l2: "length t2 = length ?t"
        have lp: "length p = L" using alloc_bt_length[OF A] .
        have B: "buddy_alloc self s = (case index_offset self (walk 0 p) (int (length p)) (int ?D) of
                     Ret off \<Rightarrow> Ret (self\<lparr>tree := t2\<rparr>, Some off)
                   | Undefined \<Rightarrow> Undefined | Abort \<Rightarrow> Abort)"
          using ok(1,2) False L(2) S lp by (simp add: buddy_alloc_def len Let_def)
        show ?thesis
        proof (cases "index_offset self (walk 0 p) (int (length p)) (int ?D)")
          case Undefined
          with B show ?thesis by simp
        next
          case Abort
          then show ?thesis by (simp add: index_offset_def Let_def split: if_splits)
        next
          case (Ret off)
          with B A l2 L lp show ?thesis by auto
        qed
      qed
    next
      case nk: False
      then have "\<forall>k\<le>?D. ?sz \<noteq> 2 ^ k" by blast
      from mismatch_root[OF ok(3) this ok(4)] show ?thesis
        using ok(1,2) False by (auto simp: buddy_alloc_def len Let_def)
    qed
  qed
qed

lemma pool_ok_alloc:
  assumes "pool_ok self" "buddy_alloc self s = Ret (self', r)"
  shows "pool_ok self'"
  using buddy_alloc_cases[OF assms(1), of s]
proof (elim disjE exE conjE)
  fix t2 p off
  assume A: "alloc_bt (length p) (abs_tree (tree self) 0 (level self))
                 = Some (abs_tree t2 0 (level self), p)"
    and l2: "length t2 = length (tree self)"
    and B: "buddy_alloc self s = Ret (self\<lparr>tree := t2\<rparr>, Some off)"
  from assms(1) have "wf (abs_tree (tree self) 0 (level self))" by (simp add: pool_ok_def)
  from wf_alloc_bt[OF this A] have "wf (abs_tree t2 0 (level self))" .
  with assms B l2 show ?thesis by (auto simp: pool_ok_def fits_def)
qed (use assms in auto)

lemma buddy_free_cases:
  assumes "pool_ok self"
  shows "buddy_free self ptr = Abort
       \<or> (\<exists>p t'. used_at p (abs_tree (tree self) 0 (level self))
             \<and> locate (abs_tree (tree self) 0 (level self))
                  (free_unit self ptr) 0 (2 ^ level self) = Some p
             \<and> abs_tree t' 0 (level self) = free_path p (abs_tree (tree self) 0 (level self))
             \<and> t' = finish_merge (merge_path (tree self) 0 p)
             \<and> length t' = length (tree self)
             \<and> buddy_free self ptr = Ret (self\<lparr>tree := t'\<rparr>))"
proof -
  let ?D = "level self" and ?t = "tree self"
  let ?off = "free_unit self ptr"
  from assms have ok: "?D < 31" "fits ?t ?D" "wf (abs_tree ?t 0 ?D)"
    by (simp_all add: pool_ok_def)
  have len: "push_bit ?D (1::int) = 2 ^ ?D" by (simp add: push_bit_eq_mult)
  show ?thesis
  proof (cases "?off \<ge> 0 \<and> ?off < 2 ^ ?D")
    case False
    then show ?thesis using ok(1) by (auto simp: buddy_free_def len Let_def)
  next
    case True
    from free_search_abs[OF fits_room[OF ok(2)] ok(3), of ?off "2 ^ ?D"]
    show ?thesis
    proof (elim disjE conjE exE)
      assume "free_search ?t ?off 0 (2 ^ ?D) 0 = Abort"
      then show ?thesis using ok(1) True by (simp add: buddy_free_def len Let_def)
    next
      fix p t'
      assume L: "locate (abs_tree ?t 0 ?D) ?off 0 (2 ^ ?D) = Some p"
        and F: "free_search ?t ?off 0 (2 ^ ?D) 0 = Ret t'"
        and T: "t' = finish_merge (merge_path ?t 0 p)"
        and A: "abs_tree t' 0 ?D = free_path p (abs_tree ?t 0 ?D)"
        and l: "length t' = length ?t"
      have "buddy_free self ptr = Ret (self\<lparr>tree := t'\<rparr>)"
        using ok(1) True F by (simp add: buddy_free_def len Let_def)
      with L T A l locate_used_at[OF L] show ?thesis by blast
    qed
  qed
qed

lemma pool_ok_free:
  assumes "pool_ok self" "buddy_free self ptr = Ret self'"
  shows "pool_ok self'"
  using buddy_free_cases[OF assms(1), of ptr]
proof (elim disjE exE conjE)
  fix p t'
  assume U: "used_at p (abs_tree (tree self) 0 (level self))"
    and A: "abs_tree t' 0 (level self) = free_path p (abs_tree (tree self) 0 (level self))"
    and l: "length t' = length (tree self)"
    and B: "buddy_free self ptr = Ret (self\<lparr>tree := t'\<rparr>)"
  from assms(1) have "wf (abs_tree (tree self) 0 (level self))" by (simp add: pool_ok_def)
  from wf_free_path[OF this U] A have "wf (abs_tree t' 0 (level self))" by simp
  with assms B l show ?thesis by (auto simp: pool_ok_def fits_def)
qed (use assms in auto)

lemma status_zeroed:
  "byte_of i < n \<Longrightarrow> get_index_status (replicate n 0) i = NODE_UNUSED"
  by (simp add: get_index_status_def NODE_defs)

lemma from_buffer_Some:
  assumes "buddy_from_buffer lvl mn = Ret (Some p)"
  shows "\<not> lvl - mn < 2" "\<not> mn < 4"
    and "\<exists>r. buddy_alloc \<lparr>min_level = unat mn, level = unat (lvl - mn),
            tree = replicate (2 ^ (unat (lvl - mn) - 1)) 0\<rparr> (2 ^ (unat (lvl - mn) - 1)) = Ret (p, r)"
proof -
  show g: "\<not> lvl - mn < 2" "\<not> mn < 4"
    using assms unfolding buddy_from_buffer_def Let_def by (simp_all split: if_splits)
  let ?self = "\<lparr>min_level = unat mn, level = unat (lvl - mn),
            tree = replicate (2 ^ (unat (lvl - mn) - 1)) (0::u8)\<rparr>"
  from assms g have "(case buddy_alloc ?self (2 ^ (unat (lvl - mn) - 1)) of
              Undefined \<Rightarrow> Undefined
            | Abort \<Rightarrow> Abort
            | Ret (self', r) \<Rightarrow> Ret (Some self')) = Ret (Some p)"
    unfolding buddy_from_buffer_def Let_def by (simp split: if_splits)
  then show "\<exists>r. buddy_alloc ?self (2 ^ (unat (lvl - mn) - 1)) = Ret (p, r)"
    by (cases "buddy_alloc ?self (2 ^ (unat (lvl - mn) - 1))") auto
qed

lemma buddy_alloc_Ret_limits:
  "buddy_alloc self s = Ret x \<Longrightarrow> level self < 31 \<and> min_level self < 31"
  unfolding buddy_alloc_def by (simp split: if_splits)

lemma fresh_pool:
  assumes "buddy_from_buffer lvl mn = Ret (Some p)"
  shows "pool_ok p" and "level p = unat (lvl - mn)" and "min_level p = unat mn"
    and "2 \<le> level p" and "4 \<le> min_level p"
proof -
  define D where "D = unat (lvl - mn)"
  define self where "self = \<lparr>min_level = unat mn, level = D, tree = replicate (2 ^ (D - 1)) (0::u8)\<rparr>"
  note fb = from_buffer_Some[OF assms]
  have D2: "2 \<le> D" and m4: "4 \<le> unat mn"
    using fb(1,2) unfolding D_def by (simp_all add: word_less_nat_alt)
  from fb(3) obtain r where a: "buddy_alloc self (2 ^ (D - 1)) = Ret (p, r)"
    unfolding self_def D_def by blast
  from buddy_alloc_Ret_limits[OF a] have lim: "D < 31" "unat mn < 31"
    by (simp_all add: self_def)
  from D2 obtain d where d: "D = Suc d" by (cases D) simp_all
  have "fits (tree self) D" unfolding self_def fits_def d by simp
  moreover have "get_index_status (tree self) 0 = NODE_UNUSED"
    unfolding self_def by (simp add: status_zeroed byte_of_div)
  then have "wf (abs_tree (tree self) 0 D)" by (simp add: d)
  ultimately have ok: "pool_ok self" using lim by (simp add: pool_ok_def self_def)
  from pool_ok_alloc[OF ok a] show "pool_ok p" .
  from buddy_alloc_cases[OF ok, of "2 ^ (D - 1)"] a
  have "level p = D \<and> min_level p = unat mn" by (auto simp: self_def)
  then show "level p = unat (lvl - mn)" "min_level p = unat mn" "2 \<le> level p" "4 \<le> min_level p"
    using D2 m4 by (simp_all add: D_def)
qed

inductive reach :: "buddy \<Rightarrow> bool" where
  fresh: "buddy_from_buffer lvl mn = Ret (Some p) \<Longrightarrow> reach p"
| alloc: "reach p \<Longrightarrow> buddy_alloc p s = Ret (p', r) \<Longrightarrow> reach p'"
| free: "reach p \<Longrightarrow> buddy_free p ptr = Ret p' \<Longrightarrow> reach p'"

lemma reach_pool_ok: "reach p \<Longrightarrow> pool_ok p"
  by (induction rule: reach.induct) (auto intro: fresh_pool(1) pool_ok_alloc pool_ok_free)

fun free_capacity :: "u8 list \<Rightarrow> int \<Rightarrow> nat \<Rightarrow> bool" where
  "free_capacity t i 0 \<longleftrightarrow> get_index_status t i = NODE_UNUSED"
| "free_capacity t i (Suc n) \<longleftrightarrow>
     get_index_status t i = NODE_UNUSED
     \<or> ((get_index_status t i = NODE_SPLIT \<or> get_index_status t i = NODE_FULL)
        \<and> (free_capacity t (child i False) n \<or> free_capacity t (child i True) n))"

fun consistent :: "u8 list \<Rightarrow> int \<Rightarrow> nat \<Rightarrow> bool" where
  "consistent t i 0 \<longleftrightarrow>
     get_index_status t i \<noteq> NODE_SPLIT \<and> get_index_status t i \<noteq> NODE_FULL"
| "consistent t i (Suc n) \<longleftrightarrow>
     (get_index_status t i = NODE_FULL \<longrightarrow> \<not> free_capacity t i (Suc n))
     \<and> (get_index_status t i = NODE_SPLIT \<longrightarrow> free_capacity t i (Suc n))
     \<and> (get_index_status t i = NODE_SPLIT \<or> get_index_status t i = NODE_FULL \<longrightarrow>
          consistent t (child i False) n \<and> consistent t (child i True) n)"

lemma wf_free_capacity:
  assumes "wf (abs_tree t i n)"
  shows "free_capacity t i n \<longleftrightarrow> \<not> full t i"
  using assms
proof (induction n arbitrary: i)
  case 0
  then show ?case
    by (cases rule: wf_abs_cases) (auto simp: full_def NODE_defs)
next
  case (Suc n)
  from Suc.prems show ?case
  proof (cases rule: wf_abs_cases)
    case leaf
    then show ?thesis by (auto simp: full_def NODE_defs)
  next
    case (inner n')
    then have n': "n' = n" by simp
    from inner(3,4) have IH: "free_capacity t (child i b) n \<longleftrightarrow> \<not> full t (child i b)" for b
      using Suc.IH[of "child i b"] n' by (cases b) simp_all
    have w: "wf (if get_index_status t i = NODE_FULL
                 then Full (abs_tree t (child i False) n) (abs_tree t (child i True) n)
                 else Split (abs_tree t (child i False) n) (abs_tree t (child i True) n))"
      using Suc.prems unfolding abs_inner[OF inner(2)] .
    have "(get_index_status t i = NODE_FULL) = (full t (child i False) \<and> full t (child i True))"
    proof (cases "get_index_status t i = NODE_FULL")
      case True
      with w show ?thesis by (simp add: isfull_abs)
    next
      case False
      with w show ?thesis by (simp add: isfull_abs)
    qed
    moreover have "free_capacity t i (Suc n) =
        (free_capacity t (child i False) n \<or> free_capacity t (child i True) n)"
      using inner(2) by (auto simp: NODE_defs)
    moreover have "full t i = (get_index_status t i = NODE_FULL)"
      using inner(2) by (auto simp: full_def NODE_defs)
    ultimately show ?thesis using IH by blast
  qed
qed

lemma wf_consistent:
  assumes "wf (abs_tree t i n)"
  shows "consistent t i n"
  using assms
proof (induction n arbitrary: i)
  case 0
  then show ?case by (cases rule: wf_abs_cases) (auto simp: NODE_defs)
next
  case (Suc n)
  from Suc.prems show ?case
  proof (cases rule: wf_abs_cases)
    case leaf
    then show ?thesis by (auto simp: NODE_defs)
  next
    case (inner n')
    then have n': "n' = n" by simp
    have c: "consistent t (child i b) n" for b
      using Suc.IH[of "child i b"] inner(3,4) n' by (cases b) simp_all
    have "free_capacity t i (Suc n) \<longleftrightarrow> \<not> full t i" using wf_free_capacity[OF Suc.prems] .
    then show ?thesis using c inner(2)
      by (auto simp: full_def NODE_defs simp del: free_capacity.simps)
  qed
qed

subsection \<open>More runs on the pool with \<open>total_level = 7\<close>, \<open>min_level = 4\<close>\<close>

lemma alloc_fresh_16:
  "buddy_alloc \<lparr>min_level = 4, level = 3, tree = [138, 64, 0, 0]\<rparr> 16
   = Ret (\<lparr>min_level = 4, level = 3, tree = [202, 64, 1, 0]\<rparr>, Some 16)"
  by (simp add: run_simps)

lemma alloc_second_16:
  "buddy_alloc \<lparr>min_level = 4, level = 3, tree = [202, 64, 1, 0]\<rparr> 16
   = Ret (\<lparr>min_level = 4, level = 3, tree = [202, 66, 5, 0]\<rparr>, Some 32)"
  by (simp add: run_simps)

lemma free_second_32:
  "buddy_free \<lparr>min_level = 4, level = 3, tree = [202, 66, 5, 0]\<rparr> 32
   = Ret \<lparr>min_level = 4, level = 3, tree = [202, 64, 5, 0]\<rparr>"
  by (simp add: run_simps)

lemma free_first_16:
  "buddy_free \<lparr>min_level = 4, level = 3, tree = [202, 64, 5, 0]\<rparr> 16
   = Ret \<lparr>min_level = 4, level = 3, tree = [138, 64, 4, 0]\<rparr>"
  by (simp add: run_simps)

lemma free_only_16:
  "buddy_free \<lparr>min_level = 4, level = 3, tree = [202, 64, 1, 0]\<rparr> 16
   = Ret \<lparr>min_level = 4, level = 3, tree = [138, 64, 0, 0]\<rparr>"
  by (simp add: run_simps)


lemma alloc_fresh_128:
  "buddy_alloc \<lparr>min_level = 4, level = 3, tree = [138, 64, 0, 0]\<rparr> 128
   = Ret (\<lparr>min_level = 4, level = 3, tree = [138, 64, 0, 0]\<rparr>, None)"
  by (simp add: run_simps)

lemma reach_fresh_7_4: "reach \<lparr>min_level = 4, level = 3, tree = [138, 64, 0, 0]\<rparr>"
  using reach.fresh[OF fresh_7_4] .

lemma reach_one_16: "reach \<lparr>min_level = 4, level = 3, tree = [202, 64, 1, 0]\<rparr>"
  using reach.alloc[OF reach_fresh_7_4 alloc_fresh_16] .

subsection \<open>Completeness of the search\<close>

fun fits_depth :: "nat \<Rightarrow> bt \<Rightarrow> bool" where
  "fits_depth n Free = True"
| "fits_depth n Used = True"
| "fits_depth n Junk = False"
| "fits_depth 0 (Split l r) = False"
| "fits_depth 0 (Full l r) = False"
| "fits_depth (Suc n) (Split l r) = (fits_depth n l \<and> fits_depth n r)"
| "fits_depth (Suc n) (Full l r) = (fits_depth n l \<and> fits_depth n r)"

lemma wf_fits_depth: "wf (abs_tree t i n) \<Longrightarrow> fits_depth n (abs_tree t i n)"
proof (induction n arbitrary: i)
  case 0
  then show ?case by (cases rule: wf_abs_cases) (auto simp: NODE_defs)
next
  case (Suc n)
  from Suc.prems show ?case
  proof (cases rule: wf_abs_cases)
    case leaf
    then show ?thesis by (auto simp: NODE_defs)
  next
    case (inner n')
    then have "fits_depth n (abs_tree t (child i b) n)" for b
      using Suc.IH[of "child i b"] by (cases b) simp_all
    then show ?thesis unfolding abs_inner[OF inner(2)] by simp
  qed
qed


lemma used_at_mk: "used_at p (mk l r) = used_at p (Split l r)"
  by (cases p) (simp_all add: mk_def)


lemma used_at_status:
  "used_at p (abs_tree t i n) \<Longrightarrow> get_index_status t (walk i p) = NODE_USED"
proof (induction p arbitrary: i n)
  case Nil
  then show ?case by (simp add: abs_used_iff)
next
  case (Cons b p)
  from Cons.prems obtain n' where "used_at p (abs_tree t (child i b) n')"
    by (rule used_at_Cons_abs)
  from Cons.IH[OF this] show ?case by simp
qed






subsection \<open>Offsets of nodes\<close>

fun path_off :: "bool list \<Rightarrow> nat \<Rightarrow> int" where
  "path_off [] n = 0"
| "path_off (b # p) n = (if b then 2 ^ (n - 1) else 0) + path_off p (n - 1)"

lemma walk_off:
  "length q \<le> n \<Longrightarrow> (walk i q + 1) * 2 ^ (n - length q) = (i + 1) * 2 ^ n + path_off q n"
proof (induction q arbitrary: i n)
  case Nil
  show ?case by simp
next
  case (Cons b q)
  then obtain n' where n: "n = Suc n'" by (cases n) simp_all
  with Cons.prems have "length q \<le> n'" by simp
  from Cons.IH[OF this, of "child i b"]
  have "(walk (child i b) q + 1) * 2 ^ (n' - length q) = (child i b + 1) * 2 ^ n' + path_off q n'" .
  then show ?case unfolding n by (cases b) (simp_all add: child_def algebra_simps)
qed

lemma path_off_bounds:
  "length q \<le> n \<Longrightarrow> 0 \<le> path_off q n \<and> path_off q n + 2 ^ (n - length q) \<le> 2 ^ n"
proof (induction q arbitrary: n)
  case Nil
  show ?case by simp
next
  case (Cons b q)
  then obtain n' where n: "n = Suc n'" by (cases n) simp_all
  with Cons.prems have "length q \<le> n'" by simp
  from Cons.IH[OF this] have ih: "0 \<le> path_off q n'" "path_off q n' + 2 ^ (n' - length q) \<le> 2 ^ n'"
    by simp_all
  have e: "path_off (b # q) n = (if b then 2 ^ n' else 0) + path_off q n'"
    "n - length (b # q) = n' - length q" "(2::int) ^ n = 2 ^ n' + 2 ^ n'"
    unfolding n by simp_all
  have p: "(0::int) \<le> 2 ^ n'" by simp
  show ?case
  proof (cases b)
    case True
    with ih show ?thesis unfolding e by simp
  next
    case False
    have "path_off q n' + 2 ^ (n' - length q) \<le> 2 ^ n' + 2 ^ n'" using ih(2) p by linarith
    with ih(1) False show ?thesis unfolding e by simp
  qed
qed

lemma index_offset_value:
  assumes "length q \<le> level self" "level self < 31"
  shows "index_offset self (walk 0 q) (int (length q)) (int (level self))
       = (if 32 \<le> min_level self
             \<or> 2 ^ 31 \<le> path_off q (level self) * 2 ^ min_level self
          then Undefined else Ret (path_off q (level self) * 2 ^ min_level self))"
proof -
  let ?D = "level self"
  have "(walk 0 q + 1) * 2 ^ (?D - length q) = 2 ^ ?D + path_off q ?D"
    using walk_off[OF assms(1), of 0] by simp
  moreover have p: "(2::int) ^ length q * 2 ^ (?D - length q) = 2 ^ ?D"
    using assms by (simp flip: power_add)
  ultimately have b: "(walk 0 q + 1 - 2 ^ length q) * 2 ^ (?D - length q) = path_off q ?D"
    by (simp add: algebra_simps)
  have a0: "0 \<le> walk 0 q + 1 - 2 ^ length q" using walk_bounds[of q] by simp
  have n: "nat (int ?D - int (length q)) = ?D - length q" using assms by simp
  from path_off_bounds[OF assms(1)] have pb: "0 \<le> path_off q ?D" "path_off q ?D < 2 ^ ?D"
  proof -
    from path_off_bounds[OF assms(1)] show "0 \<le> path_off q ?D" by simp
    have "0 < (2::int) ^ (?D - length q)" by simp
    with path_off_bounds[OF assms(1)] show "path_off q ?D < 2 ^ ?D" by linarith
  qed
  have small: "path_off q ?D < 2 ^ 31"
  proof -
    have "(2::int) ^ ?D \<le> 2 ^ 31" using assms(2) by (intro power_increasing) simp_all
    with pb(2) show ?thesis by linarith
  qed
  have w: "\<not> 2 ^ 31 \<le> walk 0 q + 1"
  proof -
    have "(0::int) < 2 ^ length q" by simp
    with a0 have "0 < walk 0 q + 1" by linarith
    moreover have "(1::int) \<le> 2 ^ (?D - length q)" by simp
    ultimately have "walk 0 q + 1 \<le> (walk 0 q + 1) * 2 ^ (?D - length q)"
      by (simp add: mult_le_cancel_left1)
    also have "\<dots> = 2 ^ ?D + path_off q ?D"
      using walk_off[OF assms(1), of 0] by simp
    also have "\<dots> < 2 ^ ?D + 2 ^ ?D" using pb(2) by simp
    also have "\<dots> = 2 ^ Suc ?D" by simp
    also have "\<dots> \<le> (2::int) ^ 31" using assms(2) by (intro power_increasing) simp_all
    finally show ?thesis by simp
  qed
  show ?thesis
    unfolding index_offset_def Let_def push_bit_eq_mult n
    using assms a0 b small w by (auto simp: not_le)
qed


lemma used_at_fits_length: "used_at q b \<Longrightarrow> fits_depth n b \<Longrightarrow> length q \<le> n"
proof (induction q b arbitrary: n rule: used_at.induct)
  case (2 c p l r)
  then show ?case by (cases n) (auto split: if_splits)
next
  case (3 c p l r)
  then show ?case by (cases n) (auto split: if_splits)
qed simp_all

lemma locate_iff:
  "fits_depth n b \<Longrightarrow>
   locate b off left (2 ^ n) = Some q \<longleftrightarrow> used_at q b \<and> off = left + path_off q n"
proof (induction n arbitrary: b left q)
  case 0
  then show ?case by (cases b; cases q) auto
next
  case (Suc n)
  have half: "(2::int) ^ Suc n div 2 = 2 ^ n" by simp
  have inner: "(locate (if f then Full l r else Split l r) off left (2 ^ Suc n) = Some q)
      = (used_at q (Split l r) \<and> off = left + path_off q (Suc n))"
    if fl: "fits_depth n l" and fr: "fits_depth n r" for l r f
  proof -
    have lhs: "locate (if f then Full l r else Split l r) off left (2 ^ Suc n) =
        (if off < left + 2 ^ n then map_option ((#) False) (locate l off left (2 ^ n))
         else map_option ((#) True) (locate r off (left + 2 ^ n) (2 ^ n)))"
      by (cases f) (simp_all add: half)
    have L: "(locate l off left (2 ^ n) = Some q') = (used_at q' l \<and> off = left + path_off q' n)" for q'
      using Suc.IH[OF fl] .
    have R: "(locate r off (left + 2 ^ n) (2 ^ n) = Some q')
        = (used_at q' r \<and> off = left + 2 ^ n + path_off q' n)" for q'
      using Suc.IH[OF fr] .
    have bl: "used_at q' l \<Longrightarrow> off = left + path_off q' n \<Longrightarrow> off < left + 2 ^ n" for q'
    proof -
      assume a: "used_at q' l" "off = left + path_off q' n"
      then have "length q' \<le> n" using used_at_fits_length fl by blast
      from path_off_bounds[OF this] have "path_off q' n + 2 ^ (n - length q') \<le> 2 ^ n" by simp
      moreover have "0 < (2::int) ^ (n - length q')" by simp
      ultimately show ?thesis using a(2) by linarith
    qed
    have br: "used_at q' r \<Longrightarrow> off = left + 2 ^ n + path_off q' n \<Longrightarrow> \<not> off < left + 2 ^ n" for q'
    proof -
      assume a: "used_at q' r" "off = left + 2 ^ n + path_off q' n"
      then have "length q' \<le> n" using used_at_fits_length fr by blast
      from path_off_bounds[OF this] have "0 \<le> path_off q' n" by simp
      then show ?thesis using a(2) by linarith
    qed
    show ?thesis
    proof (cases q)
      case Nil
      then show ?thesis unfolding lhs by simp
    next
      case (Cons c q')
      show ?thesis
      proof (cases c)
        case True
        have "(locate (if f then Full l r else Split l r) off left (2 ^ Suc n) = Some q)
            = (\<not> off < left + 2 ^ n \<and> locate r off (left + 2 ^ n) (2 ^ n) = Some q')"
          unfolding lhs Cons using True by auto
        also have "\<dots> = (used_at q' r \<and> off = left + 2 ^ n + path_off q' n)"
          unfolding R using br by blast
        finally show ?thesis unfolding Cons using True by (simp add: add.assoc)
      next
        case False
        have "(locate (if f then Full l r else Split l r) off left (2 ^ Suc n) = Some q)
            = (off < left + 2 ^ n \<and> locate l off left (2 ^ n) = Some q')"
          unfolding lhs Cons using False by auto
        also have "\<dots> = (used_at q' l \<and> off = left + path_off q' n)"
          unfolding L using bl by blast
        finally show ?thesis unfolding Cons using False by (simp add: add.assoc)
      qed
    qed
  qed
  from Suc.prems show ?case
  proof (cases b)
    case (Split l r)
    with Suc.prems inner[of l r False] show ?thesis by simp
  next
    case (Full l r)
    with Suc.prems inner[of l r True] show ?thesis by (cases q) simp_all
  qed (cases q; auto)+
qed

subsection \<open>Live blocks and release by offset\<close>

lemma sint_small:
  assumes "0 \<le> x" "x < 2 ^ 31"
  shows "sint (word_of_int x :: u32) = x"
proof -
  have "sint (word_of_int x :: u32) = (x + 2 ^ (32 - 1)) mod 2 ^ 32 - 2 ^ (32 - 1)"
    using int_word_sint[of x, where ?'a = 32] by simp
  moreover have "(x + 2 ^ 31) mod 2 ^ 32 = x + 2 ^ 31" using assms by simp
  ultimately show ?thesis by simp
qed

lemma free_unit_exact:
  assumes "0 \<le> x" "x < 2 ^ 31"
  shows "free_unit self (nat (x * 2 ^ min_level self)) = x"
proof -
  have "nat (x * 2 ^ min_level self) = nat x * 2 ^ min_level self"
    using assms(1) by (simp add: nat_mult_distrib nat_power_eq)
  then have "drop_bit (min_level self) (nat (x * 2 ^ min_level self)) = nat x"
    by (simp add: drop_bit_eq_div)
  moreover have "(word_of_nat (nat x) :: u32) = word_of_int (int (nat x))"
    by (simp only: of_int_of_nat_eq)
  then have "(word_of_nat (nat x) :: u32) = word_of_int x"
    using assms(1) by simp
  ultimately show ?thesis using sint_small[OF assms] by (simp only: free_unit_def)
qed




lemma used_at_Free [simp]: "used_at q Free = False"
  by (cases q) simp_all

lemma used_at_Used [simp]: "used_at q Used = (q = [])"
  by (cases q) simp_all

lemma used_at_Split:
  "used_at q (Split l r) = (\<exists>p. (q = False # p \<and> used_at p l) \<or> (q = True # p \<and> used_at p r))"
  by (cases q) auto

lemma used_at_Full:
  "used_at q (Full l r) = (\<exists>p. (q = False # p \<and> used_at p l) \<or> (q = True # p \<and> used_at p r))"
  by (cases q) auto




lemma locate_range:
  assumes "fits_depth n b" "locate b off 0 (2 ^ n) = Some q"
  shows "0 \<le> off \<and> off < 2 ^ n"
proof -
  from assms have u: "used_at q b" "off = path_off q n" using locate_iff[OF assms(1)] by simp_all
  from path_off_bounds[OF used_at_fits_length[OF u(1) assms(1)]]
  have "0 \<le> path_off q n" "path_off q n + 2 ^ (n - length q) \<le> 2 ^ n" by simp_all
  moreover have "0 < (2::int) ^ (n - length q)" by simp
  ultimately show ?thesis using u(2) by linarith
qed

lemma buddy_free_locate:
  assumes "pool_ok self"
  shows "buddy_free self ptr
       = (case locate (abs_tree (tree self) 0 (level self)) (free_unit self ptr) 0 (2 ^ level self) of
            None \<Rightarrow> Abort
          | Some q \<Rightarrow> Ret (self\<lparr>tree := finish_merge (merge_path (tree self) 0 q)\<rparr>))"
proof -
  let ?D = "level self" and ?b = "abs_tree (tree self) 0 (level self)"
  let ?off = "free_unit self ptr"
  from assms have ok: "?D < 31" "fits (tree self) ?D" "wf ?b" by (simp_all add: pool_ok_def)
  have len: "push_bit ?D (1::int) = 2 ^ ?D" by (simp add: push_bit_eq_mult)
  have bf: "buddy_free self ptr =
      (if \<not> (0 \<le> ?off \<and> ?off < 2 ^ ?D) then Abort
       else (case free_search (tree self) ?off 0 (2 ^ ?D) 0 of
                   Undefined \<Rightarrow> Undefined
                 | Abort \<Rightarrow> Abort
                 | Ret t' \<Rightarrow> Ret (self\<lparr>tree := t'\<rparr>)))"
    using ok(1) unfolding buddy_free_def Let_def len by simp
  show ?thesis
  proof (cases "0 \<le> ?off \<and> ?off < 2 ^ ?D")
    case False
    have "locate ?b ?off 0 (2 ^ ?D) = None"
    proof (cases "locate ?b ?off 0 (2 ^ ?D)")
      case (Some q)
      from locate_range[OF wf_fits_depth[OF ok(3)] Some] False show ?thesis by simp
    qed simp
    then show ?thesis unfolding bf using False by simp
  next
    case True
    from free_search_abs[OF fits_room[OF ok(2)] ok(3), of ?off "2 ^ ?D"]
    show ?thesis
    proof (elim disjE exE conjE)
      assume "locate ?b ?off 0 (2 ^ ?D) = None" "free_search (tree self) ?off 0 (2 ^ ?D) 0 = Abort"
      then show ?thesis unfolding bf using True by simp
    next
      fix p t'
      assume "locate ?b ?off 0 (2 ^ ?D) = Some p" "free_search (tree self) ?off 0 (2 ^ ?D) 0 = Ret t'"
        "t' = finish_merge (merge_path (tree self) 0 p)"
      then show ?thesis unfolding bf using True by simp
    qed
  qed
qed

lemma buddy_free_abs:
  assumes "pool_ok self" "used_at q (abs_tree (tree self) 0 (level self))"
    "free_unit self ptr = path_off q (level self)"
  shows "\<exists>t'. buddy_free self ptr = Ret (self\<lparr>tree := t'\<rparr>)
            \<and> length t' = length (tree self)
            \<and> abs_tree t' 0 (level self) = free_path q (abs_tree (tree self) 0 (level self))"
proof -
  let ?D = "level self" and ?b = "abs_tree (tree self) 0 (level self)"
  from assms(1) have ok: "fits (tree self) ?D" "wf ?b" by (simp_all add: pool_ok_def)
  have L: "locate ?b (free_unit self ptr) 0 (2 ^ ?D) = Some q"
    using locate_iff[OF wf_fits_depth[OF ok(2)], of "free_unit self ptr" 0 q] assms(2,3) by simp
  from free_search_abs[OF fits_room[OF ok(1)] ok(2), of "free_unit self ptr" "2 ^ ?D"] L
  have "abs_tree (finish_merge (merge_path (tree self) 0 q)) 0 ?D = free_path q ?b"
    "length (finish_merge (merge_path (tree self) 0 q)) = length (tree self)"
    by auto
  then show ?thesis unfolding buddy_free_locate[OF assms(1)] L
    by (intro exI[of _ "finish_merge (merge_path (tree self) 0 q)"]) simp
qed

lemma buddy_free_Ret:
  assumes "pool_ok self" "buddy_free self ptr = Ret self'"
  shows "\<exists>q. used_at q (abs_tree (tree self) 0 (level self))
            \<and> free_unit self ptr = path_off q (level self)
            \<and> level self' = level self \<and> min_level self' = min_level self
            \<and> length (tree self') = length (tree self)
            \<and> abs_tree (tree self') 0 (level self) = free_path q (abs_tree (tree self) 0 (level self))"
proof -
  let ?D = "level self" and ?b = "abs_tree (tree self) 0 (level self)"
  from assms(1) have ok: "wf ?b" by (simp add: pool_ok_def)
  from assms(2) obtain q where L: "locate ?b (free_unit self ptr) 0 (2 ^ ?D) = Some q"
    unfolding buddy_free_locate[OF assms(1)] by (auto split: option.splits)
  then have u: "used_at q ?b" "free_unit self ptr = path_off q ?D"
    using locate_iff[OF wf_fits_depth[OF ok], of "free_unit self ptr" 0 q] by simp_all
  from buddy_free_abs[OF assms(1) u] assms(2) u show ?thesis by auto
qed





lemma reach_two_16: "reach \<lparr>min_level = 4, level = 3, tree = [202, 66, 5, 0]\<rparr>"
  using reach.alloc[OF reach_one_16 alloc_second_16] .

subsection \<open>The blocks of a tree determine it\<close>

lemma used_at_join: "used_at q (join l r) = used_at q (Split l r)"
  by (cases q) (simp_all add: join_def)

lemma wf_used_exists: "wf b \<Longrightarrow> b \<noteq> Free \<Longrightarrow> \<exists>q. used_at q b"
proof (induction b)
  case Used
  show ?case by (intro exI[of _ "[]"]) simp
next
  case (Split l r)
  then have "l \<noteq> Free \<or> r \<noteq> Free" "wf l" "wf r" by auto
  with Split.IH obtain q where "used_at q l \<or> used_at q r" by blast
  then show ?case unfolding used_at_Split by blast
next
  case (Full l r)
  then have "l \<noteq> Free" "wf l" by auto
  with Full.IH obtain q where "used_at q l" by blast
  then show ?case unfolding used_at_Full by blast
qed simp_all

lemma wf_unique:
  "wf b \<Longrightarrow> wf b' \<Longrightarrow> (\<And>q. used_at q b = used_at q b') \<Longrightarrow> b = b'"
proof (induction b arbitrary: b')
  case Free
  show ?case
  proof (rule ccontr)
    assume "Free \<noteq> b'"
    with wf_used_exists[OF Free.prems(2)] Free.prems(3) show False by auto
  qed
next
  case Used
  from Used.prems(3)[of "[]"] show ?case by simp
next
  case (Split l r)
  from wf_used_exists[OF Split.prems(1)] obtain q where q: "used_at q (Split l r)" by auto
  then have q': "used_at q b'" using Split.prems(3) by simp
  have n: "\<not> used_at [] b'" using Split.prems(3)[of "[]"] by simp
  have kids: "l = l' \<and> r = r'"
    if "\<And>c p. used_at (c # p) b' = (if c then used_at p r' else used_at p l')"
      "wf l'" "wf r'" for l' r'
  proof
    have "used_at p l = used_at p l'" for p
      using Split.prems(3)[of "False # p"] that(1)[of False p] by simp
    with Split.IH(1)[of l'] Split.prems(1) that(2) show "l = l'" by simp
    have "used_at p r = used_at p r'" for p
      using Split.prems(3)[of "True # p"] that(1)[of True p] by simp
    with Split.IH(2)[of r'] Split.prems(1) that(3) show "r = r'" by simp
  qed
  show ?case
  proof (cases b')
    case (Split l' r')
    with kids[of r' l'] Split.prems(2) show ?thesis by simp
  next
    case (Full l' r')
    with kids[of r' l'] Split.prems(1,2) show ?thesis by auto
  qed (use q' n Split.prems(2) in auto)
next
  case (Full l r)
  from wf_used_exists[OF Full.prems(1)] obtain q where q: "used_at q (Full l r)" by auto
  then have q': "used_at q b'" using Full.prems(3) by simp
  have n: "\<not> used_at [] b'" using Full.prems(3)[of "[]"] by simp
  have kids: "l = l' \<and> r = r'"
    if "\<And>c p. used_at (c # p) b' = (if c then used_at p r' else used_at p l')"
      "wf l'" "wf r'" for l' r'
  proof
    have "used_at p l = used_at p l'" for p
      using Full.prems(3)[of "False # p"] that(1)[of False p] by simp
    with Full.IH(1)[of l'] Full.prems(1) that(2) show "l = l'" by simp
    have "used_at p r = used_at p r'" for p
      using Full.prems(3)[of "True # p"] that(1)[of True p] by simp
    with Full.IH(2)[of r'] Full.prems(1) that(3) show "r = r'" by simp
  qed
  show ?case
  proof (cases b')
    case (Split l' r')
    with kids[of r' l'] Full.prems(1,2) show ?thesis by auto
  next
    case (Full l' r')
    with kids[of r' l'] Full.prems(2) show ?thesis by simp
  qed (use q' n Full.prems(2) in auto)
next
  case Junk
  then show ?case by simp
qed

lemma alloc_bt_used:
  "alloc_bt m b = Some (b', p) \<Longrightarrow>
   \<not> used_at p b \<and> (\<forall>q. used_at q b' = (q = p \<or> used_at q b))"
proof (induction m b arbitrary: b' p rule: alloc_bt.induct)
  case (1 b)
  then show ?case by (auto split: if_splits)
next
  case (2 m)
  then obtain l p' where l: "alloc_bt m Free = Some (l, p')" "b' = Split l Free" "p = False # p'"
    by auto
  from 2(1)[OF l(1)] show ?case unfolding l(2,3) used_at_Split by auto
next
  case (3 m l r)
  show ?case
  proof (cases "alloc_bt m l")
    case (Some a)
    obtain l' p' where a: "a = (l', p')" by (cases a)
    with 3(3) Some have e: "b' = mk l' r" "p = False # p'" by auto
    from 3(1)[of l' p'] Some a
    have "\<not> used_at p' l" "\<And>q. used_at q l' = (q = p' \<or> used_at q l)" by auto
    then show ?thesis unfolding e used_at_mk used_at_Split by auto
  next
    case None
    with 3(3) obtain r' p' where r: "alloc_bt m r = Some (r', p')" "b' = mk l r'" "p = True # p'"
      by auto
    from 3(2)[OF None r(1)]
    have "\<not> used_at p' r" "\<And>q. used_at q r' = (q = p' \<or> used_at q r)" by auto
    then show ?thesis unfolding r(2,3) used_at_mk used_at_Split by auto
  qed
qed simp_all

lemma free_path_used:
  "used_at p b \<Longrightarrow> used_at q (free_path p b) = (used_at q b \<and> q \<noteq> p)"
proof (induction p b arbitrary: q rule: free_path.induct)
  case (1 b)
  then show ?case by auto
next
  case (2 c p l r)
  show ?case
  proof (cases q)
    case Nil
    then show ?thesis by (simp add: join_def)
  next
    case (Cons d q')
    show ?thesis
    proof (cases c)
      case True
      with 2(3) have u: "used_at p r" by simp
      from 2(1)[OF True u, of q'] show ?thesis
        unfolding Cons using True by (simp add: used_at_join)
    next
      case False
      with 2(3) have u: "used_at p l" by simp
      from 2(2)[OF False u, of q'] show ?thesis
        unfolding Cons using False by (simp add: used_at_join)
    qed
  qed
next
  case (3 c p l r)
  show ?case
  proof (cases q)
    case Nil
    then show ?thesis by (simp add: join_def)
  next
    case (Cons d q')
    show ?thesis
    proof (cases c)
      case True
      with 3(3) have u: "used_at p r" by simp
      from 3(1)[OF True u, of q'] show ?thesis
        unfolding Cons using True by (simp add: used_at_join)
    next
      case False
      with 3(3) have u: "used_at p l" by simp
      from 3(2)[OF False u, of q'] show ?thesis
        unfolding Cons using False by (simp add: used_at_join)
    qed
  qed
qed simp_all

lemma used_offset_inj:
  assumes "fits_depth n b" "used_at q b" "used_at q' b" "path_off q n = path_off q' n"
  shows "q = q'"
proof -
  have "locate b (path_off q n) 0 (2 ^ n) = Some q"
    using locate_iff[OF assms(1), of "path_off q n" 0 q] assms(2) by simp
  moreover have "locate b (path_off q n) 0 (2 ^ n) = Some q'"
    using locate_iff[OF assms(1), of "path_off q n" 0 q'] assms(3,4) by simp
  ultimately show ?thesis by simp
qed

lemma used_path_unit:
  assumes "pool_ok self" "used_at q (abs_tree (tree self) 0 (level self))"
  shows "length q \<le> level self" and "0 \<le> path_off q (level self)"
    and "path_off q (level self) < 2 ^ 31"
    and "path_off q (level self) + 2 ^ (level self - length q) \<le> 2 ^ level self"
proof -
  let ?D = "level self"
  from assms(1) have fd: "fits_depth ?D (abs_tree (tree self) 0 ?D)" "?D < 31"
    by (simp_all add: pool_ok_def wf_fits_depth)
  show le: "length q \<le> ?D" using used_at_fits_length[OF assms(2) fd(1)] .
  from path_off_bounds[OF le]
  show b: "0 \<le> path_off q ?D" "path_off q ?D + 2 ^ (?D - length q) \<le> 2 ^ ?D" by simp_all
  have "0 < (2::int) ^ (?D - length q)" by simp
  with b(2) have "path_off q ?D < 2 ^ ?D" by linarith
  also have "(2::int) ^ ?D \<le> 2 ^ 31" using fd(2) by (intro power_increasing) simp_all
  finally show "path_off q ?D < 2 ^ 31" .
qed

lemma buddy_alloc_used:
  assumes "pool_ok self" "buddy_alloc self s = Ret (self', Some off)"
  shows "\<exists>q. \<not> used_at q (abs_tree (tree self) 0 (level self))
           \<and> (\<forall>r. used_at r (abs_tree (tree self') 0 (level self))
                  = (r = q \<or> used_at r (abs_tree (tree self) 0 (level self))))
           \<and> off = path_off q (level self) * 2 ^ min_level self
           \<and> length q \<le> level self
           \<and> request_units self s = 2 ^ (level self - length q)
           \<and> level self' = level self \<and> min_level self' = min_level self
           \<and> length (tree self') = length (tree self)"
  using buddy_alloc_cases[OF assms(1), of s]
proof (elim disjE exE conjE)
  fix t2 p off'
  assume le: "length p \<le> level self"
    and ru: "request_units self s = 2 ^ (level self - length p)"
    and A: "alloc_bt (length p) (abs_tree (tree self) 0 (level self))
                 = Some (abs_tree t2 0 (level self), p)"
    and l2: "length t2 = length (tree self)"
    and io: "index_offset self (walk 0 p) (int (length p)) (int (level self)) = Ret off'"
    and B: "buddy_alloc self s = Ret (self\<lparr>tree := t2\<rparr>, Some off')"
  from assms(1) have D: "level self < 31" by (simp add: pool_ok_def)
  from io have o: "off' = path_off p (level self) * 2 ^ min_level self"
    unfolding index_offset_value[OF le D] by (simp split: if_splits)
  from B assms(2) have e: "self' = self\<lparr>tree := t2\<rparr>" "off = off'" by simp_all
  from alloc_bt_used[OF A] le ru l2 o show ?thesis
    unfolding e by (intro exI[of _ p]) simp
qed (use assms(2) in simp_all)

lemma buddy_free_used:
  assumes "pool_ok self" "used_at q (abs_tree (tree self) 0 (level self))"
  shows "\<exists>self'. buddy_free self (nat (path_off q (level self) * 2 ^ min_level self)) = Ret self'
           \<and> pool_ok self'
           \<and> level self' = level self \<and> min_level self' = min_level self
           \<and> length (tree self') = length (tree self)
           \<and> (\<forall>r. used_at r (abs_tree (tree self') 0 (level self))
                  = (used_at r (abs_tree (tree self) 0 (level self)) \<and> r \<noteq> q))"
proof -
  let ?ptr = "nat (path_off q (level self) * 2 ^ min_level self)"
  note u = used_path_unit[OF assms]
  have fu: "free_unit self ?ptr = path_off q (level self)"
    using free_unit_exact[OF u(2,3)] .
  from buddy_free_abs[OF assms fu] obtain t' where
    t: "buddy_free self ?ptr = Ret (self\<lparr>tree := t'\<rparr>)" "length t' = length (tree self)"
      "abs_tree t' 0 (level self) = free_path q (abs_tree (tree self) 0 (level self))"
    by blast
  have "pool_ok (self\<lparr>tree := t'\<rparr>)" using pool_ok_free[OF assms(1) t(1)] .
  with t free_path_used[OF assms(2)] show ?thesis
    by (intro exI[of _ "self\<lparr>tree := t'\<rparr>"]) simp
qed

subsection \<open>Runs of allocations and releases\<close>

text \<open>
  A run of allocations that all succeed, collecting the offsets returned, and a run of
  releases of a list of offsets.
\<close>

fun alloc_all :: "buddy \<Rightarrow> nat list \<Rightarrow> (buddy \<times> int list) option" where
  "alloc_all p [] = Some (p, [])"
| "alloc_all p (s # ss) =
     (case buddy_alloc p s of
        Ret (p', Some off) \<Rightarrow>
          (case alloc_all p' ss of
             Some (p'', offs) \<Rightarrow> Some (p'', off # offs)
           | None \<Rightarrow> None)
      | _ \<Rightarrow> None)"

fun free_all :: "buddy \<Rightarrow> int list \<Rightarrow> buddy cres" where
  "free_all p [] = Ret p"
| "free_all p (off # offs) =
     (case buddy_free p (nat off) of
        Ret p' \<Rightarrow> free_all p' offs
      | Undefined \<Rightarrow> Undefined
      | Abort \<Rightarrow> Abort)"

lemma alloc_all_Cons:
  assumes "alloc_all p (s # ss) = Some (p1, offs)"
  obtains p' off offs' where "buddy_alloc p s = Ret (p', Some off)"
    "alloc_all p' ss = Some (p1, offs')" "offs = off # offs'"
  using assms by (auto split: cres.splits option.splits prod.splits)

lemma alloc_all_used:
  assumes "pool_ok p" "alloc_all p ss = Some (p1, offs)"
  shows "pool_ok p1 \<and> level p1 = level p \<and> min_level p1 = min_level p
       \<and> length (tree p1) = length (tree p)
       \<and> (\<exists>Q. offs = map (\<lambda>q. path_off q (level p) * 2 ^ min_level p) Q
              \<and> (\<forall>q\<in>set Q. \<not> used_at q (abs_tree (tree p) 0 (level p)))
              \<and> (\<forall>r. used_at r (abs_tree (tree p1) 0 (level p))
                     = (r \<in> set Q \<or> used_at r (abs_tree (tree p) 0 (level p)))))"
  using assms
proof (induction ss arbitrary: p offs)
  case Nil
  then show ?case by (intro conjI exI[of _ "[]"]) simp_all
next
  case (Cons s ss)
  from Cons.prems(2) obtain p' off offs' where
    a: "buddy_alloc p s = Ret (p', Some off)" "alloc_all p' ss = Some (p1, offs')"
      "offs = off # offs'"
    by (rule alloc_all_Cons)
  have ok': "pool_ok p'" using pool_ok_alloc[OF Cons.prems(1) a(1)] .
  from buddy_alloc_used[OF Cons.prems(1) a(1)] obtain q where
    q: "\<not> used_at q (abs_tree (tree p) 0 (level p))"
      "\<And>r. used_at r (abs_tree (tree p') 0 (level p))
                  = (r = q \<or> used_at r (abs_tree (tree p) 0 (level p)))"
      "off = path_off q (level p) * 2 ^ min_level p"
      "level p' = level p" "min_level p' = min_level p"
      "length (tree p') = length (tree p)"
    by blast
  from Cons.IH[OF ok' a(2)] obtain Q where
    Q: "pool_ok p1" "level p1 = level p'" "min_level p1 = min_level p'"
      "length (tree p1) = length (tree p')"
      "offs' = map (\<lambda>q. path_off q (level p') * 2 ^ min_level p') Q"
      "\<And>x. x \<in> set Q \<Longrightarrow> \<not> used_at x (abs_tree (tree p') 0 (level p'))"
      "\<And>r. used_at r (abs_tree (tree p1) 0 (level p'))
                     = (r \<in> set Q \<or> used_at r (abs_tree (tree p') 0 (level p')))"
    by blast
  have 1: "offs = map (\<lambda>q. path_off q (level p) * 2 ^ min_level p) (q # Q)"
    unfolding a(3) q(3) Q(5) q(4,5) by simp
  have 2: "\<forall>x\<in>set (q # Q). \<not> used_at x (abs_tree (tree p) 0 (level p))"
    using q(1) Q(6) unfolding q(4) q(2) by auto
  have 3: "\<forall>r. used_at r (abs_tree (tree p1) 0 (level p))
                     = (r \<in> set (q # Q) \<or> used_at r (abs_tree (tree p) 0 (level p)))"
    using Q(7) unfolding q(4) q(2) by auto
  from 1 2 3 Q(1-4) q(4-6) show ?case by (intro conjI exI[of _ "q # Q"]) simp_all
qed

lemma free_all_used:
  assumes "pool_ok p" "distinct offs"
    "set offs = (\<lambda>q. path_off q (level p) * 2 ^ min_level p) ` Qs"
    "\<And>q. q \<in> Qs \<Longrightarrow> used_at q (abs_tree (tree p) 0 (level p))"
  shows "\<exists>p2. free_all p offs = Ret p2 \<and> pool_ok p2
            \<and> level p2 = level p \<and> min_level p2 = min_level p
            \<and> length (tree p2) = length (tree p)
            \<and> (\<forall>r. used_at r (abs_tree (tree p2) 0 (level p))
                   = (used_at r (abs_tree (tree p) 0 (level p)) \<and> r \<notin> Qs))"
  using assms
proof (induction offs arbitrary: p Qs)
  case Nil
  then have "Qs = {}" by simp
  with Nil.prems(1) show ?case by (intro exI[of _ p]) simp
next
  case (Cons x offs)
  let ?off = "\<lambda>p q. path_off q (level p) * 2 ^ min_level p"
  from Cons.prems(3) obtain q where q: "q \<in> Qs" "x = ?off p q" by auto
  have uq: "used_at q (abs_tree (tree p) 0 (level p))" using Cons.prems(4)[OF q(1)] .
  from buddy_free_used[OF Cons.prems(1) uq] obtain p' where
    p': "buddy_free p (nat x) = Ret p'" "pool_ok p'"
      "level p' = level p" "min_level p' = min_level p"
      "length (tree p') = length (tree p)"
      "\<And>r. used_at r (abs_tree (tree p') 0 (level p))
                  = (used_at r (abs_tree (tree p) 0 (level p)) \<and> r \<noteq> q)"
    unfolding q(2) by blast
  from Cons.prems(1) have fd: "fits_depth (level p) (abs_tree (tree p) 0 (level p))"
    by (simp add: pool_ok_def wf_fits_depth)
  have inj: "r = q" if "r \<in> Qs" "?off p r = x" for r
  proof -
    from that(2) q(2) have "path_off r (level p) = path_off q (level p)" by simp
    from used_offset_inj[OF fd Cons.prems(4)[OF that(1)] uq this] show ?thesis .
  qed
  have s: "set offs = ?off p' ` (Qs - {q})"
  proof (intro set_eqI iffI)
    fix y assume y: "y \<in> set offs"
    then have "y \<in> ?off p ` Qs" using Cons.prems(3) by auto
    then obtain r where r: "r \<in> Qs" "y = ?off p r" by auto
    from y Cons.prems(2) have "y \<noteq> x" by auto
    with r q(2) have "r \<noteq> q" by auto
    with r show "y \<in> ?off p' ` (Qs - {q})" unfolding p'(3,4) by auto
  next
    fix y assume "y \<in> ?off p' ` (Qs - {q})"
    then obtain r where r: "r \<in> Qs" "r \<noteq> q" "y = ?off p r" unfolding p'(3,4) by auto
    then have "y \<in> set (x # offs)" using Cons.prems(3) by auto
    moreover have "y \<noteq> x" using inj[OF r(1)] r(2,3) by auto
    ultimately show "y \<in> set offs" by simp
  qed
  have u: "used_at r (abs_tree (tree p') 0 (level p'))" if "r \<in> Qs - {q}" for r
    using that Cons.prems(4)[of r] unfolding p'(3) p'(6) by simp
  from Cons.prems(2) have d: "distinct offs" by simp
  from Cons.IH[OF p'(2) d s u] obtain p2 where
    p2: "free_all p' offs = Ret p2" "pool_ok p2"
      "level p2 = level p'" "min_level p2 = min_level p'"
      "length (tree p2) = length (tree p')"
      "\<And>r. used_at r (abs_tree (tree p2) 0 (level p'))
                   = (used_at r (abs_tree (tree p') 0 (level p')) \<and> r \<notin> Qs - {q})"
    by blast
  have "free_all p (x # offs) = Ret p2" using p'(1) p2(1) by simp
  moreover have "\<forall>r. used_at r (abs_tree (tree p2) 0 (level p))
                   = (used_at r (abs_tree (tree p) 0 (level p)) \<and> r \<notin> Qs)"
  proof
    fix r
    have "used_at r (abs_tree (tree p2) 0 (level p))
        = (used_at r (abs_tree (tree p') 0 (level p)) \<and> r \<notin> Qs - {q})"
      using p2(6)[of r] unfolding p'(3) .
    also have "\<dots> = ((used_at r (abs_tree (tree p) 0 (level p)) \<and> r \<noteq> q) \<and> r \<notin> Qs - {q})"
      unfolding p'(6) ..
    also have "\<dots> = (used_at r (abs_tree (tree p) 0 (level p)) \<and> r \<notin> Qs)"
      using q(1) by blast
    finally show "used_at r (abs_tree (tree p2) 0 (level p))
        = (used_at r (abs_tree (tree p) 0 (level p)) \<and> r \<notin> Qs)" .
  qed
  ultimately show ?case using p2(2-5) p'(3-5) by (intro exI[of _ p2]) simp
qed

lemma alloc_free_all_abs:
  assumes "pool_ok p0" "alloc_all p0 ss = Some (p1, offs)"
    "distinct offs'" "set offs' = set offs"
  shows "\<exists>p2. free_all p1 offs' = Ret p2
            \<and> level p2 = level p0 \<and> min_level p2 = min_level p0
            \<and> length (tree p2) = length (tree p0)
            \<and> abs_tree (tree p2) 0 (level p2) = abs_tree (tree p0) 0 (level p0)"
proof -
  from alloc_all_used[OF assms(1,2)] obtain Q where
    Q: "pool_ok p1" "level p1 = level p0" "min_level p1 = min_level p0"
      "length (tree p1) = length (tree p0)"
      "offs = map (\<lambda>q. path_off q (level p0) * 2 ^ min_level p0) Q"
      "\<And>q. q \<in> set Q \<Longrightarrow> \<not> used_at q (abs_tree (tree p0) 0 (level p0))"
      "\<And>r. used_at r (abs_tree (tree p1) 0 (level p0))
                     = (r \<in> set Q \<or> used_at r (abs_tree (tree p0) 0 (level p0)))"
    by blast
  have s: "set offs' = (\<lambda>q. path_off q (level p1) * 2 ^ min_level p1) ` set Q"
    unfolding assms(4) Q(5) Q(2,3) by simp
  have u: "used_at q (abs_tree (tree p1) 0 (level p1))" if "q \<in> set Q" for q
    using that unfolding Q(2) Q(7) by simp
  from free_all_used[OF Q(1) assms(3) s u] obtain p2 where
    p2: "free_all p1 offs' = Ret p2" "pool_ok p2"
      "level p2 = level p1" "min_level p2 = min_level p1"
      "length (tree p2) = length (tree p1)"
      "\<And>r. used_at r (abs_tree (tree p2) 0 (level p1))
                   = (used_at r (abs_tree (tree p1) 0 (level p1)) \<and> r \<notin> set Q)"
    by blast
  have same: "used_at r (abs_tree (tree p2) 0 (level p0)) = used_at r (abs_tree (tree p0) 0 (level p0))"
    for r
    using p2(6)[of r] Q(6)[of r] unfolding Q(2) Q(7) by auto
  have "wf (abs_tree (tree p2) 0 (level p0))" "wf (abs_tree (tree p0) 0 (level p0))"
    using p2(2) assms(1) unfolding pool_ok_def p2(3) Q(2) by simp_all
  from wf_unique[OF this same]
  have "abs_tree (tree p2) 0 (level p0) = abs_tree (tree p0) 0 (level p0)" .
  with p2(1,3-5) Q(2-4) show ?thesis by (intro exI[of _ p2]) simp
qed

lemma abs_tree_root_status:
  assumes "abs_tree t i n = abs_tree t' i n"
  shows "get_index_status t i = get_index_status t' i"
proof -
  have s: "abs_tree u i n = Free \<or> abs_tree u i n = Used
         \<or> (\<exists>l r. abs_tree u i n = Split l r) \<or> (\<exists>l r. abs_tree u i n = Full l r)" for u
    by (cases n) simp_all
  have d: "get_index_status u i =
      (case abs_tree u i n of Free \<Rightarrow> NODE_UNUSED | Used \<Rightarrow> NODE_USED
        | Split l r \<Rightarrow> NODE_SPLIT | Full l r \<Rightarrow> NODE_FULL | Junk \<Rightarrow> NODE_FULL)" for u
    using status_cases[of u i] by (cases n) (auto simp: NODE_defs)
  show ?thesis unfolding d[of t] d[of t'] assms ..
qed

lemma alloc_all_two_16:
  "alloc_all \<lparr>min_level = 4, level = 3, tree = [138, 64, 0, 0]\<rparr> [16, 16]
   = Some (\<lparr>min_level = 4, level = 3, tree = [202, 66, 5, 0]\<rparr>, [16, 32])"
  by (simp add: alloc_fresh_16 alloc_second_16)

lemma free_all_two_16:
  "free_all \<lparr>min_level = 4, level = 3, tree = [202, 66, 5, 0]\<rparr> [32, 16]
   = Ret \<lparr>min_level = 4, level = 3, tree = [138, 64, 4, 0]\<rparr>"
  using free_second_32 free_first_16 by simp

subsection \<open>Blocks of distinct nodes\<close>







subsection \<open>The block reserved for the tree\<close>



subsection \<open>Live allocations\<close>


















subsection \<open>Runs on the pool with \<open>total_level = 32\<close>, \<open>min_level = 29\<close>\<close>

text \<open>
  Eight blocks of \<open>2^29\<close> bytes. The fourth allocation finds the block at unit 4 and marks
  it, but its offset \<open>4 << 29\<close> does not fit an \<^verbatim>\<open>int\<close>: the result of
  \<^verbatim>\<open>_index_offset\<close> is undefined.
\<close>

lemma fresh_32_29:
  "buddy_from_buffer 32 29 = Ret (Some \<lparr>min_level = 29, level = 3, tree = [138, 64, 0, 0]\<rparr>)"
  by (simp add: run_simps eval_simps replicate_4)

lemma alloc_32_29_first:
  "buddy_alloc \<lparr>min_level = 29, level = 3, tree = [138, 64, 0, 0]\<rparr> 0
   = Ret (\<lparr>min_level = 29, level = 3, tree = [202, 64, 1, 0]\<rparr>, Some 536870912)"
  by (simp add: run_simps)

lemma alloc_32_29_second:
  "buddy_alloc \<lparr>min_level = 29, level = 3, tree = [202, 64, 1, 0]\<rparr> 0
   = Ret (\<lparr>min_level = 29, level = 3, tree = [202, 66, 5, 0]\<rparr>, Some 1073741824)"
  by (simp add: run_simps)

lemma alloc_32_29_third:
  "buddy_alloc \<lparr>min_level = 29, level = 3, tree = [202, 66, 5, 0]\<rparr> 0
   = Ret (\<lparr>min_level = 29, level = 3, tree = [206, 67, 21, 0]\<rparr>, Some 1610612736)"
  by (simp add: run_simps)

lemma alloc_32_29_overflow:
  "buddy_alloc \<lparr>min_level = 29, level = 3, tree = [206, 67, 21, 0]\<rparr> 0 = Undefined"
  by (simp add: run_simps)

section \<open>Properties\<close>

text \<open>
  Claim C9. For an in-range node index \<open>i\<close> and a status \<open>st\<close> (one of the four
  constants), reading node \<open>i\<close> after \<open>set_index_status t i st\<close> yields \<open>st\<close>; every
  other in-range node \<open>j\<close> reads as before; and the write changes no byte other than
  byte \<open>i >> 2\<close> (nor the length of the array).
\<close>

theorem status_codec_write_read_frame:
  assumes "in_tree t i"
    and "st \<in> {NODE_UNUSED, NODE_USED, NODE_SPLIT, NODE_FULL}"
  shows "get_index_status (set_index_status t i st) i = st
       \<and> (\<forall>j. in_tree t j \<and> j \<noteq> i \<longrightarrow>
            get_index_status (set_index_status t i st) j = get_index_status t j)
       \<and> (\<forall>b. b \<noteq> byte_of i \<longrightarrow> set_index_status t i st ! b = t ! b)
       \<and> length (set_index_status t i st) = length t"
proof -
  from assms(2) have st: "0 \<le> st" "st \<le> 3"
    by (auto simp: NODE_UNUSED_def NODE_USED_def NODE_SPLIT_def NODE_FULL_def)
  have "get_index_status (set_index_status t i st) i = st"
    by (rule get_set_same[OF assms(1) st])
  moreover have "\<forall>j. in_tree t j \<and> j \<noteq> i \<longrightarrow>
            get_index_status (set_index_status t i st) j = get_index_status t j"
    using get_set_other[OF assms(1) _ _ st] by (simp add: in_tree_def)
  moreover have "\<forall>b. b \<noteq> byte_of i \<longrightarrow> set_index_status t i st ! b = t ! b"
    by (simp add: set_other_byte)
  ultimately show ?thesis by simp
qed

theorem status_codec_write_read_frame_witness:
  "in_tree [27, 228] 5
   \<and> NODE_SPLIT \<in> {NODE_UNUSED, NODE_USED, NODE_SPLIT, NODE_FULL}
   \<and> get_index_status (set_index_status [27, 228] 5 NODE_SPLIT) 5 = NODE_SPLIT
   \<and> get_index_status (set_index_status [27, 228] 5 NODE_SPLIT) 4 = get_index_status [27, 228] 4
   \<and> set_index_status [27, 228] 5 NODE_SPLIT ! 0 = 27"
proof -
  have a: "in_tree [27, 228] 5" by (simp add: in_tree_def byte_of_div)
  have a4: "in_tree [27, 228] 4" by (simp add: in_tree_def byte_of_div)
  have b: "NODE_SPLIT \<in> {NODE_UNUSED, NODE_USED, NODE_SPLIT, NODE_FULL}" by simp
  have c: "(0::nat) \<noteq> byte_of 5" by (simp add: byte_of_div)
  from status_codec_write_read_frame[OF a b] a a4 b c show ?thesis
    by (auto simp del: insert_iff)
qed

text \<open>
  Claim C1. Construction returns NULL exactly when \<open>total_level - min_level < 2\<close> (as
  integers) or \<open>min_level < 4\<close>; in particular it fails whenever \<open>min_level > total_level\<close>.
  The code computes the difference in \<^verbatim>\<open>unsigned int\<close>: for \<open>level = 4\<close>, \<open>min_level = 5\<close> it
  wraps to \<open>2^32 - 1\<close>, the test \<^verbatim>\<open>self->level < 2\<close> is false, NULL is not returned, and the
  next statement shifts \<open>1\<close> by \<open>2^32 - 2\<close> bits.
\<close>

theorem buddy_from_buffer_min_above_total:
  "buddy_from_buffer 4 5 = Undefined
   \<and> buddy_from_buffer 4 5 \<noteq> Ret None
   \<and> \<not> ((4::u32) - 5 < 2 \<or> (5::u32) < 4)"
proof -
  have "buddy_from_buffer 4 5 = Undefined"
    by (simp add: buddy_from_buffer_def Let_def)
  moreover have "\<not> ((4::u32) - 5 < 2 \<or> (5::u32) < 4)"
    by simp
  ultimately show ?thesis by simp
qed

text \<open>
  Claim C3. A returned block is the minimum block for \<open>s \<le> 2^min_level\<close> and otherwise the
  next power of two \<open>\<ge> s\<close>; a rounded size above the pool size gives NULL at once.
  The code passes the \<^verbatim>\<open>size_t\<close> request to \<^verbatim>\<open>next_pow_of_2(uint32_t)\<close>: on the fresh pool
  with \<open>total_level = 7\<close>, \<open>min_level = 4\<close> the request \<open>2^32 + 20\<close> is truncated to \<open>20\<close>,
  rounded to \<open>32\<close>, and answered with the 32-byte block of node 4 at offset 32, exactly as
  a request of 32 bytes is. The request \<open>3 * 2^30\<close> is rounded to \<open>0\<close> (the addition
  wraps), is not rejected, and the search walks off the tree.
\<close>

theorem buddy_alloc_truncates_request:
  "buddy_from_buffer 7 4 = Ret (Some \<lparr>min_level = 4, level = 3, tree = [138, 64, 0, 0]\<rparr>)
   \<and> buddy_alloc \<lparr>min_level = 4, level = 3, tree = [138, 64, 0, 0]\<rparr> 4294967316
       = Ret (\<lparr>min_level = 4, level = 3, tree = [138, 65, 0, 0]\<rparr>, Some 32)
   \<and> buddy_alloc \<lparr>min_level = 4, level = 3, tree = [138, 64, 0, 0]\<rparr> 32
       = Ret (\<lparr>min_level = 4, level = 3, tree = [138, 65, 0, 0]\<rparr>, Some 32)
   \<and> buddy_alloc \<lparr>min_level = 4, level = 3, tree = [138, 64, 0, 0]\<rparr> 3221225472
       = Undefined"
  using fresh_7_4 alloc_fresh_trunc alloc_fresh_32 alloc_fresh_wrap
  by (intro conjI)

text \<open>
  Claim C4. Whenever \<open>buddy_alloc\<close> returns NULL on a pool reachable from a freshly
  constructed one by allocate and free calls, because the rounded size exceeds the pool or
  because the search finds no block, the pool (and so its status tree) is the same after
  the call as before it.
\<close>

theorem failed_alloc_leaves_pool:
  assumes "reach p" and "buddy_alloc p s = Ret (p', None)"
  shows "p' = p \<and> tree p' = tree p"
  using buddy_alloc_cases[OF reach_pool_ok[OF assms(1)], of s] assms(2) by auto

theorem failed_alloc_leaves_pool_witness:
  "reach \<lparr>min_level = 4, level = 3, tree = [138, 64, 0, 0]\<rparr>
   \<and> buddy_alloc \<lparr>min_level = 4, level = 3, tree = [138, 64, 0, 0]\<rparr> 128
       = Ret (\<lparr>min_level = 4, level = 3, tree = [138, 64, 0, 0]\<rparr>, None)
   \<and> tree \<lparr>min_level = 4, level = 3, tree = [138, 64, 0, 0]\<rparr> = [138, 64, 0, 0]"
  using failed_alloc_leaves_pool[OF reach_fresh_7_4 alloc_fresh_128]
    reach_fresh_7_4 alloc_fresh_128
  by simp

text \<open>
  Claim C6. In every pool reachable from a freshly constructed one by allocate and free
  calls, the tree seen from the root is consistent: a FULL node has no free capacity in its
  subtree, a SPLIT node has some, and a node at maximum depth is neither SPLIT nor FULL;
  a successful allocate or free leads to a pool with the same property.
\<close>

theorem tree_consistency_invariant:
  assumes "reach p"
  shows "consistent (tree p) 0 (level p)
       \<and> (\<forall>s p' r. buddy_alloc p s = Ret (p', r) \<longrightarrow> consistent (tree p') 0 (level p'))
       \<and> (\<forall>ptr p'. buddy_free p ptr = Ret p' \<longrightarrow> consistent (tree p') 0 (level p'))"
proof -
  have c: "consistent (tree q) 0 (level q)" if "reach q" for q
    using reach_pool_ok[OF that] by (simp add: pool_ok_def wf_consistent)
  show ?thesis
    using c[OF assms] c[OF reach.alloc[OF assms]] c[OF reach.free[OF assms]] by blast
qed

theorem tree_consistency_invariant_witness:
  "reach \<lparr>min_level = 4, level = 3, tree = [202, 64, 1, 0]\<rparr>
   \<and> consistent [202, 64, 1, 0] 0 3
   \<and> get_index_status [202, 64, 1, 0] 3 = NODE_FULL
   \<and> \<not> free_capacity [202, 64, 1, 0] 3 (Suc 0)
   \<and> get_index_status [202, 64, 1, 0] 1 = NODE_SPLIT
   \<and> free_capacity [202, 64, 1, 0] 1 (Suc (Suc 0))
   \<and> buddy_alloc \<lparr>min_level = 4, level = 3, tree = [202, 64, 1, 0]\<rparr> 16
       = Ret (\<lparr>min_level = 4, level = 3, tree = [202, 66, 5, 0]\<rparr>, Some 32)
   \<and> consistent [202, 66, 5, 0] 0 3
   \<and> buddy_free \<lparr>min_level = 4, level = 3, tree = [202, 64, 1, 0]\<rparr> 16
       = Ret \<lparr>min_level = 4, level = 3, tree = [138, 64, 0, 0]\<rparr>
   \<and> consistent [138, 64, 0, 0] 0 3"
proof -
  have a: "get_index_status [202, 64, 1, 0] 3 = NODE_FULL"
    "get_index_status [202, 64, 1, 0] 1 = NODE_SPLIT"
    by (simp_all add: eval_simps)
  have b: "\<not> free_capacity [202, 64, 1, 0] 3 (Suc 0)"
    by (simp add: eval_simps child_def)
  have c: "free_capacity [202, 64, 1, 0] 1 (Suc (Suc 0))"
    by (simp add: eval_simps child_def)
  from tree_consistency_invariant[OF reach_one_16] alloc_second_16 free_only_16
  have "consistent [202, 64, 1, 0] 0 3 \<and> consistent [202, 66, 5, 0] 0 3
        \<and> consistent [138, 64, 0, 0] 0 3"
    by fastforce
  with a b c reach_one_16 alloc_second_16 free_only_16 show ?thesis by simp
qed






text \<open>
  Claim C8, as stated, fails on the code. After two allocations of 16 bytes on the pool with
  \<open>total_level = 7\<close>, \<open>min_level = 4\<close>, releasing the second (node 9, whose buddy 10 is
  UNUSED) writes UNUSED to the parent 4 only: the entry of node 9 itself still reads USED.
\<close>

theorem free_keeps_stale_entry:
  "reach \<lparr>min_level = 4, level = 3, tree = [202, 66, 5, 0]\<rparr>
   \<and> get_index_status [202, 66, 5, 0] 9 = NODE_USED
   \<and> get_index_status [202, 66, 5, 0] (buddy_of 9) = NODE_UNUSED
   \<and> buddy_free \<lparr>min_level = 4, level = 3, tree = [202, 66, 5, 0]\<rparr> 32
       = Ret \<lparr>min_level = 4, level = 3, tree = [202, 64, 5, 0]\<rparr>
   \<and> get_index_status [202, 64, 5, 0] 9 = NODE_USED
   \<and> get_index_status [202, 64, 5, 0] 9 \<noteq> NODE_UNUSED
   \<and> get_index_status [202, 64, 5, 0] (parent_of 9) = NODE_UNUSED"
proof -
  have "get_index_status [202, 66, 5, 0] 9 = NODE_USED"
    "get_index_status [202, 66, 5, 0] (buddy_of 9) = NODE_UNUSED"
    "get_index_status [202, 64, 5, 0] 9 = NODE_USED"
    "get_index_status [202, 64, 5, 0] 9 \<noteq> NODE_UNUSED"
    "get_index_status [202, 64, 5, 0] (parent_of 9) = NODE_UNUSED"
    by (simp_all add: eval_simps buddy_of_def parent_of_def)
  with reach_two_16 free_second_32 show ?thesis by simp
qed

text \<open>
  Claim C8, amended. When \<open>buddy_free\<close> locates the USED node owning the offset, the tree
  as read from the root (descending through SPLIT and FULL nodes only) becomes
  \<open>free_path\<close> of the old one: the node is free, every ancestor whose two children are then
  both free is free as well (merging continues upward as far as possible), and every
  ancestor above the level where merging stops is SPLIT (a FULL one is demoted). Entries
  below a node that has become UNUSED are not rewritten.
\<close>

theorem free_coalesces_from_root:
  assumes "reach p" and "buddy_free p ptr = Ret p'"
  shows "\<exists>q. get_index_status (tree p) (walk 0 q) = NODE_USED
           \<and> used_at q (abs_tree (tree p) 0 (level p))
           \<and> path_off q (level p) = free_unit p ptr
           \<and> level p' = level p \<and> min_level p' = min_level p
           \<and> length (tree p') = length (tree p)
           \<and> abs_tree (tree p') 0 (level p) = free_path q (abs_tree (tree p) 0 (level p))"
proof -
  have ok: "pool_ok p" using reach_pool_ok[OF assms(1)] .
  from buddy_free_Ret[OF ok assms(2)] obtain q where
    q: "used_at q (abs_tree (tree p) 0 (level p))" "free_unit p ptr = path_off q (level p)"
      "level p' = level p" "min_level p' = min_level p" "length (tree p') = length (tree p)"
      "abs_tree (tree p') 0 (level p) = free_path q (abs_tree (tree p) 0 (level p))"
    by blast
  from used_at_status[OF q(1)] q show ?thesis by (intro exI[of _ q]) simp
qed

theorem free_coalesces_from_root_witness:
  "reach \<lparr>min_level = 4, level = 3, tree = [202, 66, 5, 0]\<rparr>
   \<and> buddy_free \<lparr>min_level = 4, level = 3, tree = [202, 66, 5, 0]\<rparr> 32
       = Ret \<lparr>min_level = 4, level = 3, tree = [202, 64, 5, 0]\<rparr>
   \<and> (\<exists>q. get_index_status [202, 66, 5, 0] (walk 0 q) = NODE_USED
          \<and> path_off q 3
              = free_unit \<lparr>min_level = 4, level = 3, tree = [202, 66, 5, 0]\<rparr> 32
          \<and> abs_tree [202, 64, 5, 0] 0 3 = free_path q (abs_tree [202, 66, 5, 0] 0 3))"
proof -
  from free_coalesces_from_root[OF reach_two_16 free_second_32]
  have "\<exists>q. get_index_status [202, 66, 5, 0] (walk 0 q) = NODE_USED
          \<and> path_off q 3
              = free_unit \<lparr>min_level = 4, level = 3, tree = [202, 66, 5, 0]\<rparr> 32
          \<and> abs_tree [202, 64, 5, 0] 0 3 = free_path q (abs_tree [202, 66, 5, 0] 0 3)"
    by auto
  with reach_two_16 free_second_32 show ?thesis by simp
qed

text \<open>
  Claim C2, as stated, fails on the code. On the pool with \<open>total_level = 7\<close>,
  \<open>min_level = 4\<close>, two allocations of 16 bytes followed by the release of both (the second
  first) leave the byte array \<open>[138, 64, 4, 0]\<close>, while the fresh pool has
  \<open>[138, 64, 0, 0]\<close>: the entry of node 9 keeps the bits USED below its UNUSED parent.
\<close>

theorem freed_pool_keeps_stale_bits:
  "buddy_from_buffer 7 4 = Ret (Some \<lparr>min_level = 4, level = 3, tree = [138, 64, 0, 0]\<rparr>)
   \<and> alloc_all \<lparr>min_level = 4, level = 3, tree = [138, 64, 0, 0]\<rparr> [16, 16]
       = Some (\<lparr>min_level = 4, level = 3, tree = [202, 66, 5, 0]\<rparr>, [16, 32])
   \<and> free_all \<lparr>min_level = 4, level = 3, tree = [202, 66, 5, 0]\<rparr> [32, 16]
       = Ret \<lparr>min_level = 4, level = 3, tree = [138, 64, 4, 0]\<rparr>
   \<and> tree \<lparr>min_level = 4, level = 3, tree = [138, 64, 4, 0]\<rparr>
       \<noteq> tree \<lparr>min_level = 4, level = 3, tree = [138, 64, 0, 0]\<rparr>"
  using fresh_7_4 alloc_all_two_16 free_all_two_16 by simp

text \<open>
  Claim C2, amended. For a freshly constructed pool and every sequence of successful
  allocations, releasing all the returned offsets in any order succeeds and gives a pool
  whose status tree, read from the root through SPLIT and FULL nodes, is identical to that
  of the fresh pool (in particular the root entry is the same); entries below an UNUSED node
  may differ.
\<close>

theorem alloc_free_all_restores_tree:
  assumes "buddy_from_buffer lvl mn = Ret (Some p0)"
    and "alloc_all p0 ss = Some (p1, offs)"
    and "distinct offs'" and "set offs' = set offs"
  shows "\<exists>p2. free_all p1 offs' = Ret p2
           \<and> level p2 = level p0 \<and> min_level p2 = min_level p0
           \<and> length (tree p2) = length (tree p0)
           \<and> abs_tree (tree p2) 0 (level p2) = abs_tree (tree p0) 0 (level p0)
           \<and> get_index_status (tree p2) 0 = get_index_status (tree p0) 0"
proof -
  from alloc_free_all_abs[OF fresh_pool(1)[OF assms(1)] assms(2-4)] obtain p2 where
    p2: "free_all p1 offs' = Ret p2" "level p2 = level p0" "min_level p2 = min_level p0"
      "length (tree p2) = length (tree p0)"
      "abs_tree (tree p2) 0 (level p2) = abs_tree (tree p0) 0 (level p0)"
    by blast
  from p2(5) have "get_index_status (tree p2) 0 = get_index_status (tree p0) 0"
    unfolding p2(2) by (rule abs_tree_root_status)
  with p2 show ?thesis by (intro exI[of _ p2]) simp
qed

theorem alloc_free_all_restores_tree_witness:
  "buddy_from_buffer 7 4 = Ret (Some \<lparr>min_level = 4, level = 3, tree = [138, 64, 0, 0]\<rparr>)
   \<and> alloc_all \<lparr>min_level = 4, level = 3, tree = [138, 64, 0, 0]\<rparr> [16, 16]
       = Some (\<lparr>min_level = 4, level = 3, tree = [202, 66, 5, 0]\<rparr>, [16, 32])
   \<and> distinct [32, 16 :: int] \<and> set [32, 16 :: int] = set [16, 32]
   \<and> free_all \<lparr>min_level = 4, level = 3, tree = [202, 66, 5, 0]\<rparr> [32, 16]
       = Ret \<lparr>min_level = 4, level = 3, tree = [138, 64, 4, 0]\<rparr>
   \<and> abs_tree [138, 64, 4, 0] 0 3 = abs_tree [138, 64, 0, 0] 0 3"
proof -
  have d: "distinct [32, 16 :: int]" "set [32, 16 :: int] = set [16, 32]" by auto
  from alloc_free_all_restores_tree[OF fresh_7_4 alloc_all_two_16 d]
  have "abs_tree [138, 64, 4, 0] 0 3 = abs_tree [138, 64, 0, 0] 0 3"
    unfolding free_all_two_16 by simp
  with fresh_7_4 alloc_all_two_16 free_all_two_16 d show ?thesis by simp
qed




end
